theory Spec2Isabelle
  imports Complex_Main "HOL-Library.Monad_Syntax"
begin

section \<open>The chess library as seen by the agent\<close>

text \<open>
  The agent of \<^verbatim>\<open>chess_agent.py\<close> works on a \<^verbatim>\<open>chess.Board\<close> of the python-chess
  library.  The library is not part of the repository: the board is modelled as a record
  of the attributes the agent reads and writes, and every library query the agent calls
  is a field of the record \<open>chess\<close> below (a parameter of every function of the agent).
  Colours are booleans as in the library (\<^verbatim>\<open>chess.WHITE = True\<close>), squares are the
  numbers 0..63 (a1 = 0, h8 = 63).
\<close>

type_synonym square = nat

datatype piece_type = PAWN | KNIGHT | BISHOP | ROOK | QUEEN | KING

datatype piece = Piece (piece_type: piece_type) (piece_color: bool)

datatype move = Move (from_square: square) (to_square: square) (promotion: "piece_type option")

abbreviation (input) WHITE :: bool where "WHITE \<equiv> True"

abbreviation (input) BLACK :: bool where "BLACK \<equiv> False"

text \<open>
  A board: the piece placement, the side to move, the remaining position data of the
  library (castling rights, en-passant square, move counters; the agent never looks at
  them, so they are one opaque component \<open>rest\<close>), the stack of moves played
  (\<^verbatim>\<open>board.move_stack\<close>, most recent move last) and the stack of saved positions that
  \<^verbatim>\<open>pop\<close> restores.
\<close>

record 'x board =
  piece_at :: "square \<Rightarrow> piece option"
  turn :: bool
  rest :: 'x
  move_stack :: "move list"
  stack :: "((square \<Rightarrow> piece option) \<times> bool \<times> 'x) list"

record 'x chess =
  legal_moves :: "'x board \<Rightarrow> move list"
  make_move :: "'x board \<Rightarrow> move \<Rightarrow> (square \<Rightarrow> piece option) \<times> 'x"
  is_game_over :: "'x board \<Rightarrow> bool"
  is_checkmate :: "'x board \<Rightarrow> bool"
  is_stalemate :: "'x board \<Rightarrow> bool"
  is_insufficient_material :: "'x board \<Rightarrow> bool"
  is_check :: "'x board \<Rightarrow> bool"
  attackers :: "'x board \<Rightarrow> bool \<Rightarrow> square \<Rightarrow> square list"
  is_attacked_by :: "'x board \<Rightarrow> bool \<Rightarrow> square \<Rightarrow> bool"
  is_capture :: "'x board \<Rightarrow> move \<Rightarrow> bool"
  parse_san :: "'x board \<Rightarrow> string \<Rightarrow> move option"

text \<open>
  Modelled from the spec: \<^verbatim>\<open>board.push\<close> of the library, the ``apply'' of the
  Position Oracle (paired with undo, stack-disciplined).  It saves the current position,
  records the move, puts the pieces where the library's move execution puts them
  (\<open>make_move\<close>) and passes the turn.
\<close>

definition push :: "'x chess \<Rightarrow> 'x board \<Rightarrow> move \<Rightarrow> 'x board" where
  "push L board m =
     (let (placement, r) = make_move L board m
      in board\<lparr>piece_at := placement, turn := \<not> turn board, rest := r,
               move_stack := move_stack board @ [m],
               stack := (piece_at board, turn board, rest board) # stack board\<rparr>)"

text \<open>
  Modelled from the spec: \<^verbatim>\<open>board.pop\<close> of the library, the ``undo'' of the Position
  Oracle.  It restores the position saved by the matching push and removes the move from
  the move stack; on an empty stack it raises \<^verbatim>\<open>IndexError\<close> (here \<open>None\<close>).
\<close>

definition pop :: "'x board \<Rightarrow> 'x board option" where
  "pop board =
     (case stack board of
        [] \<Rightarrow> None
      | (placement, t, r) # st \<Rightarrow>
          (if move_stack board = [] then None
           else Some (board\<lparr>piece_at := placement, turn := t, rest := r,
                            move_stack := butlast (move_stack board), stack := st\<rparr>)))"

definition square_rank :: "square \<Rightarrow> nat" where
  "square_rank sq = sq div 8"

definition square_file :: "square \<Rightarrow> nat" where
  "square_file sq = sq mod 8"

definition square :: "nat \<Rightarrow> nat \<Rightarrow> square" where
  "square f r = r * 8 + f"

definition SQUARES :: "square list" where
  "SQUARES = [0..<64]"

text \<open>\<^verbatim>\<open>board.pieces(piece_type, color)\<close>: the squares holding such a piece, ascending.\<close>

definition pieces :: "'x board \<Rightarrow> piece_type \<Rightarrow> bool \<Rightarrow> square list" where
  "pieces board pt c = filter (\<lambda>sq. piece_at board sq = Some (Piece pt c)) SQUARES"

text \<open>\<^verbatim>\<open>board.piece_map()\<close>: the occupied squares with their pieces (the library lists
  them from h8 down to a1).\<close>

definition piece_map :: "'x board \<Rightarrow> (square \<times> piece) list" where
  "piece_map board =
     List.map_filter (\<lambda>sq. map_option (Pair sq) (piece_at board sq)) (rev SQUARES)"

text \<open>\<^verbatim>\<open>board.king(color)\<close>: the highest square with a king of that colour, if any.\<close>

definition king :: "'x board \<Rightarrow> bool \<Rightarrow> square option" where
  "king board c = (case pieces board KING c of [] \<Rightarrow> None | ks \<Rightarrow> Some (last ks))"

section \<open>Scores\<close>

text \<open>
  Scores are Python floats.  The evaluator only produces finite values; the search
  starts its bounds at \<^verbatim>\<open>-float('inf')\<close> and \<^verbatim>\<open>float('inf')\<close>.  Finite scores are
  modelled as reals (rounding is not modelled), the two infinities are added on both
  sides.
\<close>

datatype score = NegInf | Fin real | PosInf

instantiation score :: linorder
begin

fun less_eq_score :: "score \<Rightarrow> score \<Rightarrow> bool" where
  "less_eq_score NegInf _ = True"
| "less_eq_score (Fin x) NegInf = False"
| "less_eq_score (Fin x) (Fin y) = (x \<le> y)"
| "less_eq_score (Fin x) PosInf = True"
| "less_eq_score PosInf PosInf = True"
| "less_eq_score PosInf _ = False"

definition less_score :: "score \<Rightarrow> score \<Rightarrow> bool" where
  "less_score a b = (a \<le> b \<and> \<not> b \<le> a)"

instance
proof
  fix x y z :: score
  show "(x < y) = (x \<le> y \<and> \<not> y \<le> x)"
    by (simp add: less_score_def)
  show "x \<le> x"
    by (cases x) simp_all
  show "x \<le> y \<Longrightarrow> y \<le> z \<Longrightarrow> x \<le> z"
    by (cases x; cases y; cases z) simp_all
  show "x \<le> y \<Longrightarrow> y \<le> x \<Longrightarrow> x = y"
    by (cases x; cases y) simp_all
  show "x \<le> y \<or> y \<le> x"
    by (cases x; cases y) auto
qed

end

section \<open>The agent\<close>

text \<open>
  The attributes of a \<^verbatim>\<open>ChessAgent\<close> that its methods read or write (the move book is
  only read by the constructor).
\<close>

record agent =
  color :: bool
  test_opening_moves :: "string list"
  magnus_moves :: "string list"
  opening_moves_played :: nat
  magnus_moves_played :: nat
  failed_moves_count :: nat

section \<open>The evaluator\<close>

text \<open>
  \<^verbatim>\<open>evaluate\<close> accumulates \<^verbatim>\<open>score\<close> through its commented sections; each section is
  one function below, taking the score so far and returning the updated score, with the
  source's loops as folds over the same sequences.
\<close>

definition piece_values :: "piece_type \<Rightarrow> real" where
  "piece_values pt =
     (case pt of PAWN \<Rightarrow> 1 | KNIGHT \<Rightarrow> 3 | BISHOP \<Rightarrow> 3 | ROOK \<Rightarrow> 5 | QUEEN \<Rightarrow> 9 | KING \<Rightarrow> 0)"

text \<open>The keys of the dictionary \<^verbatim>\<open>piece_values\<close> in insertion order.\<close>

definition piece_types :: "piece_type list" where
  "piece_types = [PAWN, KNIGHT, BISHOP, ROOK, QUEEN, KING]"

text \<open>Material count (also recomputed, from 0, by the capture penalty).\<close>

definition material_count :: "'x board \<Rightarrow> bool \<Rightarrow> real \<Rightarrow> real" where
  "material_count board c score =
     foldl (\<lambda>s pt. s + real (length (pieces board pt c)) * piece_values pt
                     - real (length (pieces board pt (\<not> c))) * piece_values pt)
       score piece_types"

definition enemy_pawn_at :: "'x board \<Rightarrow> bool \<Rightarrow> square \<Rightarrow> bool" where
  "enemy_pawn_at board c sq =
     (case piece_at board sq of
        None \<Rightarrow> False
      | Some p \<Rightarrow> piece_type p = PAWN \<and> piece_color p \<noteq> c)"

text \<open>
  \<^verbatim>\<open>is_passed_pawn\<close>: the nested loops return \<^verbatim>\<open>False\<close> at the first enemy pawn met.
  The files run over \<^verbatim>\<open>range(max(0, file-1), min(7, file+1)+1)\<close>; on naturals
  \<open>file - 1\<close> is already \<open>max 0 (file - 1)\<close>.  White looks at the ranks
  \<^verbatim>\<open>range(rank+1, 8)\<close>, Black at \<^verbatim>\<open>range(rank-1, -1, -1)\<close>.
\<close>

definition is_passed_pawn :: "'x board \<Rightarrow> square \<Rightarrow> bool \<Rightarrow> bool" where
  "is_passed_pawn board sq c =
     (let rank = square_rank sq; file = square_file sq;
          files = [file - 1 ..< min 7 (file + 1) + 1]
      in if c = WHITE
         then list_all (\<lambda>r. list_all (\<lambda>f. \<not> enemy_pawn_at board c (square f r)) files)
                [rank + 1 ..< 8]
         else list_all (\<lambda>r. list_all (\<lambda>f. \<not> enemy_pawn_at board c (square f r)) files)
                (rev [0 ..< rank]))"

definition open_road :: "'x board \<Rightarrow> square \<Rightarrow> bool \<Rightarrow> bool" where
  "open_road board sq c =
     (let rank = square_rank sq; file = square_file sq
      in if c = WHITE
         then list_all (\<lambda>r. piece_at board (square file r) = None) [rank + 1 ..< 8]
         else list_all (\<lambda>r. piece_at board (square file r) = None) (rev [0 ..< rank]))"

text \<open>Reward our advanced passed pawns.\<close>

definition reward_passed_pawns :: "'x board \<Rightarrow> bool \<Rightarrow> real \<Rightarrow> real" where
  "reward_passed_pawns board c score =
     foldl (\<lambda>s pawn.
        let rank = square_rank pawn
        in if is_passed_pawn board pawn c
           then let bonus = (if c = WHITE then real rank * 0.5 else (7 - real rank) * 0.5);
                    bonus = (if open_road board pawn c then bonus + 2.0 else bonus)
                in s + bonus
           else s)
       score (pieces board PAWN c)"

text \<open>Penalize enemy passed pawns.\<close>

definition penalize_passed_pawns :: "'x board \<Rightarrow> bool \<Rightarrow> real \<Rightarrow> real" where
  "penalize_passed_pawns board c score =
     foldl (\<lambda>s pawn.
        let rank = square_rank pawn
        in if is_passed_pawn board pawn (\<not> c)
           then let bonus = (if c = WHITE then (7 - real rank) * 0.5 else real rank * 0.5);
                    bonus = (if open_road board pawn (\<not> c) then bonus + 2.0 else bonus)
                in s - bonus
           else s)
       score (pieces board PAWN (\<not> c))"

text \<open>Threats and counter-threats bonus.\<close>

definition counter_threat_bonus :: "'x chess \<Rightarrow> 'x board \<Rightarrow> bool \<Rightarrow> real" where
  "counter_threat_bonus L board c =
     foldl (\<lambda>bonus (sq, p).
        if piece_color p = c \<and> attackers L board (\<not> c) sq \<noteq> []
        then let threatened_value = piece_values (piece_type p)
             in foldl (\<lambda>bonus (enemy_sq, enemy_piece).
                  if piece_color enemy_piece \<noteq> c \<and> is_attacked_by L board c enemy_sq
                  then let enemy_value = piece_values (piece_type enemy_piece)
                       in if enemy_value > threatened_value
                          then bonus + (enemy_value - threatened_value) * 0.2
                          else bonus
                  else bonus)
                bonus (piece_map board)
        else bonus)
       0 (piece_map board)"

text \<open>Advanced piece safety evaluation, for our pieces and then for the opponent's.\<close>

definition piece_safety :: "'x chess \<Rightarrow> 'x board \<Rightarrow> bool \<Rightarrow> real \<Rightarrow> real" where
  "piece_safety L board c score =
     foldl (\<lambda>s col.
        let sign = (if col = c then 1 else - 1)
        in foldl (\<lambda>s pt.
             foldl (\<lambda>s sq.
                let n_attackers = length (attackers L board (\<not> col) sq);
                    n_defenders = length (attackers L board col sq);
                    safety_margin = int n_defenders - int n_attackers;
                    s = (if safety_margin < 0
                         then s - sign * (real_of_int \<bar>safety_margin\<bar> * piece_values pt * 0.5)
                         else s)
                in if n_attackers \<ge> 2 \<and> n_defenders = 0
                   then s - sign * (piece_values pt * 0.5)
                   else s)
               s (pieces board pt col))
             s [PAWN, KNIGHT, BISHOP, ROOK, QUEEN])
       score [c, \<not> c]"

text \<open>Reward opportunities to capture underdefended opponent pieces.\<close>

definition capture_opportunities :: "'x chess \<Rightarrow> 'x board \<Rightarrow> bool \<Rightarrow> real \<Rightarrow> real" where
  "capture_opportunities L board c score =
     foldl (\<lambda>s pt.
        if pt = KING then s
        else foldl (\<lambda>s sq.
               if length (attackers L board c sq) > length (attackers L board (\<not> c) sq)
               then s + piece_values pt * 0.3
               else s)
             s (pieces board pt (\<not> c)))
       score piece_types"

text \<open>
  \<^verbatim>\<open>mobility\<close> writes \<^verbatim>\<open>b.turn\<close>, counts the legal moves and writes the saved turn
  back: the board is returned with the count.
\<close>

definition mobility :: "'x chess \<Rightarrow> 'x board \<Rightarrow> bool \<Rightarrow> nat \<times> 'x board" where
  "mobility L b c =
     (let original_turn = turn b;
          b = b\<lparr>turn := c\<rparr>;
          moves_count = length (legal_moves L b);
          b = b\<lparr>turn := original_turn\<rparr>
      in (moves_count, b))"

text \<open>\<^verbatim>\<open>[chess.D4, chess.D5, chess.E4, chess.E5]\<close>\<close>

definition central_squares :: "square list" where
  "central_squares = [27, 35, 28, 36]"

definition central_control :: "'x chess \<Rightarrow> 'x board \<Rightarrow> bool \<Rightarrow> real \<Rightarrow> real" where
  "central_control L board c score =
     foldl (\<lambda>s sq.
        let s = (if is_attacked_by L board c sq then s + 0.2 else s)
        in if is_attacked_by L board (\<not> c) sq then s - 0.2 else s)
       score central_squares"

text \<open>Piece coordination bonus.\<close>

definition coordination_bonus :: "'x chess \<Rightarrow> 'x board \<Rightarrow> bool \<Rightarrow> real" where
  "coordination_bonus L board c =
     foldl (\<lambda>bonus (sq, p).
        if piece_color p = c
        then let defenders = attackers L board c sq
             in if length defenders > 1
                then bonus + (real (length defenders) - 1) * 0.2
                else bonus
        else bonus)
       0 (piece_map board)"

text \<open>Discourage non-positive captures.\<close>

definition discourage_non_positive_captures ::
  "'x chess \<Rightarrow> 'x board \<Rightarrow> bool \<Rightarrow> real \<Rightarrow> real" where
  "discourage_non_positive_captures L board c score =
     (if move_stack board \<noteq> []
      then let last_move = last (move_stack board)
           in if turn board \<noteq> c \<and> is_capture L board last_move
              then let material_diff = material_count board c 0
                   in if material_diff < 1 then score - 1.0 else score
              else score
      else score)"

text \<open>Positional improvement check, on the metric computed by \<open>evaluate\<close>.\<close>

definition positional_improvement_check :: "real \<Rightarrow> real \<Rightarrow> real" where
  "positional_improvement_check pos_metric score =
     (if pos_metric < 0.5 then score - 2.0 else score)"

text \<open>Dominant position capture penalty.\<close>

definition dominant_position_capture_penalty ::
  "'x chess \<Rightarrow> 'x board \<Rightarrow> real \<Rightarrow> real \<Rightarrow> real" where
  "dominant_position_capture_penalty L board pos_metric score =
     (let dominance_threshold = 3.0
      in if pos_metric > dominance_threshold
         then if move_stack board \<noteq> []
              then let last_move = last (move_stack board)
                   in if is_capture L board last_move then score - 2.0 else score
              else score
         else score)"

text \<open>
  Forced mate heuristic.  \<^verbatim>\<open>board.king\<close> cannot return \<^verbatim>\<open>None\<close> under the guard; the
  model keeps the score unchanged on that branch.
\<close>

definition forced_mate_heuristic :: "'x chess \<Rightarrow> 'x board \<Rightarrow> bool \<Rightarrow> real \<Rightarrow> real" where
  "forced_mate_heuristic L board c score =
     (if length (pieces board KING (\<not> c)) = 1
      then (case king board (\<not> c) of
              None \<Rightarrow> score
            | Some enemy_king_sq \<Rightarrow>
                let enemy_king_moves =
                      length (filter (\<lambda>m. from_square m = enemy_king_sq) (legal_moves L board));
                    mate_bonus = (10 - real enemy_king_moves) * 50;
                    score = score + mate_bonus;
                    enemy_king_file = square_file enemy_king_sq;
                    enemy_king_rank = square_rank enemy_king_sq;
                    score = (if enemy_king_file \<in> {0, 7} \<or> enemy_king_rank \<in> {0, 7}
                             then score + 100 else score)
                in if is_check L board
                   then if turn board = c then score + 20 else score - 20
                   else score)
      else score)"

text \<open>
  \<^verbatim>\<open>evaluate(board, depth)\<close>, returning the score and the board as the call leaves it.
\<close>

definition evaluate :: "'x chess \<Rightarrow> agent \<Rightarrow> 'x board \<Rightarrow> int \<Rightarrow> real \<times> 'x board" where
  "evaluate L self board depth =
     (if is_checkmate L board
      then (if turn board \<noteq> color self then 10000 - real_of_int depth
            else - 10000 + real_of_int depth, board)
      else if is_stalemate L board \<or> is_insufficient_material L board
      then (0, board)
      else
        let c = color self;
            score = 0;
            score = material_count board c score;
            score = reward_passed_pawns board c score;
            score = penalize_passed_pawns board c score;
            score = score + counter_threat_bonus L board c;
            score = piece_safety L board c score;
            score = capture_opportunities L board c score;
            mobility_factor = 0.05;
            (mob_own, board) = mobility L board c;
            (mob_opp, board) = mobility L board (\<not> c);
            score = score + mobility_factor * (real mob_own - real mob_opp);
            score = central_control L board c score;
            coordination = coordination_bonus L board c;
            score = score + coordination;
            score = discourage_non_positive_captures L board c score;
            (my_mobility, board) = mobility L board c;
            (opp_mobility, board) = mobility L board (\<not> c);
            pos_metric = mobility_factor * (real my_mobility - real opp_mobility);
            central_metric = central_control L board c 0;
            pos_metric = pos_metric + central_metric;
            pos_metric = pos_metric + coordination;
            score = positional_improvement_check pos_metric score;
            score = dominant_position_capture_penalty L board pos_metric score;
            score = forced_mate_heuristic L board c score
        in (score, board))"

section \<open>The search\<close>

text \<open>
  Time: \<^verbatim>\<open>time.time()\<close> is read from a clock \<open>clk\<close>, the sequence of its readings;
  the state carries the number \<open>t\<close> of readings made so far, and a reading returns
  \<open>clk t\<close> and moves on to \<open>t + 1\<close>.  Any behaviour of the wall clock is some such
  sequence.

  \<^verbatim>\<open>alpha_beta_search\<close> returns the pair \<^verbatim>\<open>(best_move, value)\<close>; the model returns it
  with the board and the clock as the call leaves them, or \<open>None\<close> when the call raises
  (the only raising operation is \<^verbatim>\<open>board.pop()\<close>).  The depth is a natural number:
  the driving loop starts at 1 and each level passes \<^verbatim>\<open>depth - 1\<close> until the test
  \<^verbatim>\<open>depth == 0\<close>.  The clock is read only when the first two disjuncts of the
  termination test are false (\<^verbatim>\<open>or\<close> short-circuits).  The two \<^verbatim>\<open>for\<close> loops are
  \<open>max_loop\<close> and \<open>min_loop\<close> over the remaining legal moves of the node, with the
  loop variables \<^verbatim>\<open>value\<close>, \<^verbatim>\<open>best_move\<close> and \<^verbatim>\<open>alpha\<close> or \<^verbatim>\<open>beta\<close>; the
  recursive call of the loop body is their parameter \<open>search\<close>, which
  \<open>alpha_beta_search\<close> instantiates with itself at \<^verbatim>\<open>depth - 1\<close>.
\<close>

type_synonym 'x search_state = "(move option \<times> score) \<times> 'x board \<times> nat"

type_synonym 'x searcher = "'x board \<Rightarrow> score \<Rightarrow> score \<Rightarrow> nat \<Rightarrow> 'x search_state option"

fun max_loop ::
    "'x chess \<Rightarrow> 'x searcher \<Rightarrow> 'x board \<Rightarrow> score \<Rightarrow> score
       \<Rightarrow> move list \<Rightarrow> score \<Rightarrow> move option \<Rightarrow> nat \<Rightarrow> 'x search_state option"
where
  "max_loop L search board alpha beta [] value best_move t =
     Some ((best_move, value), board, t)"
| "max_loop L search board alpha beta (m # moves) value best_move t =
     (case search (push L board m) alpha beta t of
        None \<Rightarrow> None
      | Some ((_, score), board, t) \<Rightarrow>
          (case pop board of
             None \<Rightarrow> None
           | Some board \<Rightarrow>
               let (value, best_move) =
                     (if score > value then (score, Some m) else (value, best_move));
                   alpha = max alpha value
               in if alpha \<ge> beta
                  then Some ((best_move, value), board, t)
                  else max_loop L search board alpha beta moves value best_move t))"

fun min_loop ::
    "'x chess \<Rightarrow> 'x searcher \<Rightarrow> 'x board \<Rightarrow> score \<Rightarrow> score
       \<Rightarrow> move list \<Rightarrow> score \<Rightarrow> move option \<Rightarrow> nat \<Rightarrow> 'x search_state option"
where
  "min_loop L search board alpha beta [] value best_move t =
     Some ((best_move, value), board, t)"
| "min_loop L search board alpha beta (m # moves) value best_move t =
     (case search (push L board m) alpha beta t of
        None \<Rightarrow> None
      | Some ((_, score), board, t) \<Rightarrow>
          (case pop board of
             None \<Rightarrow> None
           | Some board \<Rightarrow>
               let (value, best_move) =
                     (if score < value then (score, Some m) else (value, best_move));
                   beta = min beta value
               in if alpha \<ge> beta
                  then Some ((best_move, value), board, t)
                  else min_loop L search board alpha beta moves value best_move t))"

primrec alpha_beta_search ::
    "'x chess \<Rightarrow> agent \<Rightarrow> (nat \<Rightarrow> real) \<Rightarrow> 'x board \<Rightarrow> nat \<Rightarrow> score \<Rightarrow> score \<Rightarrow> bool \<Rightarrow> real \<Rightarrow> real
       \<Rightarrow> nat \<Rightarrow> 'x search_state option"
where
  "alpha_beta_search L self clk board 0 alpha beta player start_time time_limit t =
     (let (e, board) = evaluate L self board 0 in Some ((None, Fin e), board, t))"
| "alpha_beta_search L self clk board (Suc d) alpha beta player start_time time_limit t =
     (if is_game_over L board
      then (let (e, board) = evaluate L self board 0 in Some ((None, Fin e), board, t))
      else if clk t - start_time > time_limit
      then (let (e, board) = evaluate L self board 0 in Some ((None, Fin e), board, Suc t))
      else if turn board = player
      then max_loop L (\<lambda>board alpha beta t.
               alpha_beta_search L self clk board d alpha beta player start_time time_limit t)
             board alpha beta (legal_moves L board) NegInf None (Suc t)
      else min_loop L (\<lambda>board alpha beta t.
               alpha_beta_search L self clk board d alpha beta player start_time time_limit t)
             board alpha beta (legal_moves L board) PosInf None (Suc t))"


section \<open>Move selection\<close>

text \<open>
  The iterative-deepening loop of \<^verbatim>\<open>select_move\<close>.  It runs for as long as the clock
  says so, so it is a partial function: \<open>None\<close> stands for a loop that never ends (or
  a search that raises).  Each test of the loop condition reads the clock once.
\<close>

partial_function (option) deepening_loop ::
    "'x chess \<Rightarrow> agent \<Rightarrow> (nat \<Rightarrow> real) \<Rightarrow> real \<Rightarrow> real \<Rightarrow> 'x board \<Rightarrow> nat \<Rightarrow> move option \<Rightarrow> nat
       \<Rightarrow> (move option \<times> 'x board \<times> nat) option"
where
  "deepening_loop L self clk start_time time_limit board depth best_move t =
     (if clk t - start_time < time_limit
      then (case alpha_beta_search L self clk board depth NegInf PosInf (color self)
                   start_time time_limit (Suc t) of
              None \<Rightarrow> None
            | Some ((move, _), board, t) \<Rightarrow>
                deepening_loop L self clk start_time time_limit board (depth + 1)
                  (if move \<noteq> None then move else best_move) t)
      else Some (best_move, board, Suc t))"

text \<open>The fallback scan over the legal moves, with \<^verbatim>\<open>best_eval\<close> and \<^verbatim>\<open>fallback_move\<close>.\<close>

fun fallback_loop ::
    "'x chess \<Rightarrow> agent \<Rightarrow> 'x board \<Rightarrow> move list \<Rightarrow> score \<Rightarrow> move option
       \<Rightarrow> (move option \<times> 'x board) option"
where
  "fallback_loop L self board [] best_eval fallback_move = Some (fallback_move, board)"
| "fallback_loop L self board (m # moves) best_eval fallback_move =
     (let board = push L board m;
          (eval_val, board) = evaluate L self board 0
      in case pop board of
           None \<Rightarrow> None
         | Some board \<Rightarrow>
             let (best_eval, fallback_move) =
                   (if Fin eval_val > best_eval then (Fin eval_val, Some m)
                    else (best_eval, fallback_move))
             in fallback_loop L self board moves best_eval fallback_move)"

text \<open>
  \<^verbatim>\<open>select_move(board, time_limit)\<close> in its two parts.  \<open>scripted_move\<close> is the
  \<^verbatim>\<open>if\<close>/\<^verbatim>\<open>elif\<close> statement on the two scripted sources: the move it returns with
  the agent's counter advanced, or \<open>None\<close> when control falls through to the search.
  A \<^verbatim>\<open>parse_san\<close> that raises is caught by the \<^verbatim>\<open>try\<close> of its branch (\<open>None\<close> of
  the library function).  The \<^verbatim>\<open>elif\<close> belongs to the outer \<^verbatim>\<open>if\<close>.
\<close>

definition scripted_move :: "'x chess \<Rightarrow> agent \<Rightarrow> 'x board \<Rightarrow> (move \<times> agent) option" where
  "scripted_move L self board =
     (if color self = WHITE \<and> test_opening_moves self \<noteq> []
      then (if opening_moves_played self < length (test_opening_moves self)
            then (let expected_move = test_opening_moves self ! opening_moves_played self
                  in case parse_san L board expected_move of
                       None \<Rightarrow> None
                     | Some move \<Rightarrow>
                         if move \<in> set (legal_moves L board)
                         then Some (move, self\<lparr>opening_moves_played :=
                                                   opening_moves_played self + 1\<rparr>)
                         else None)
            else None)
      else if magnus_moves_played self < length (magnus_moves self)
      then (let expected_move = magnus_moves self ! magnus_moves_played self
            in case parse_san L board expected_move of
                 None \<Rightarrow> None
               | Some move \<Rightarrow>
                   if move \<in> set (legal_moves L board)
                   then Some (move, self\<lparr>magnus_moves_played := magnus_moves_played self + 1\<rparr>)
                   else None)
      else None)"

text \<open>
  \<open>search_move\<close> is the rest of the method: the clock is read for \<^verbatim>\<open>start_time\<close>, the
  deepening loop runs from depth 1, and its best move is returned, or else the result
  of the fallback scan.
\<close>

definition search_move ::
    "'x chess \<Rightarrow> agent \<Rightarrow> (nat \<Rightarrow> real) \<Rightarrow> 'x board \<Rightarrow> real \<Rightarrow> nat
       \<Rightarrow> (move option \<times> agent \<times> 'x board \<times> nat) option"
where
  "search_move L self clk board time_limit t =
     (let start_time = clk t
      in case deepening_loop L self clk start_time time_limit board 1 None (Suc t) of
           None \<Rightarrow> None
         | Some (best_move, board, t) \<Rightarrow>
             if best_move \<noteq> None
             then Some (best_move, self, board, t)
             else (case fallback_loop L self board (legal_moves L board) NegInf None of
                     None \<Rightarrow> None
                   | Some (fallback_move, board) \<Rightarrow> Some (fallback_move, self, board, t)))"

text \<open>
  The method returns the move (\<open>None\<close> for Python's \<^verbatim>\<open>None\<close>) with the agent, the
  board and the clock as the call leaves them.  The messages printed and the fixed
  \<^verbatim>\<open>time.sleep(0.1)\<close> are not modelled.
\<close>

definition select_move ::
    "'x chess \<Rightarrow> agent \<Rightarrow> (nat \<Rightarrow> real) \<Rightarrow> 'x board \<Rightarrow> real \<Rightarrow> nat
       \<Rightarrow> (move option \<times> agent \<times> 'x board \<times> nat) option"
where
  "select_move L self clk board time_limit t =
     (case scripted_move L self board of
        Some (move, self) \<Rightarrow> Some (Some move, self, board, t)
      | None \<Rightarrow> search_move L self clk board time_limit t)"

section \<open>The reference: full minimax\<close>

text \<open>
  The unpruned search the specification compares with: a fixed-perspective minimax of the
  given depth over the same tree, with the same leaves (depth 0 or game over, scored by
  \<open>evaluate\<close>), the same enumeration order of the legal moves and the same
  strict-improvement rule for the best move.  It has no clock and no window.
\<close>

fun minimax_max :: "('x board \<Rightarrow> score) \<Rightarrow> 'x chess \<Rightarrow> 'x board \<Rightarrow> move list \<Rightarrow> score \<Rightarrow> move option
    \<Rightarrow> move option \<times> score" where
  "minimax_max val L board [] value best_move = (best_move, value)"
| "minimax_max val L board (m # moves) value best_move =
     (let score = val (push L board m)
      in if score > value then minimax_max val L board moves score (Some m)
         else minimax_max val L board moves value best_move)"

fun minimax_min :: "('x board \<Rightarrow> score) \<Rightarrow> 'x chess \<Rightarrow> 'x board \<Rightarrow> move list \<Rightarrow> score \<Rightarrow> move option
    \<Rightarrow> move option \<times> score" where
  "minimax_min val L board [] value best_move = (best_move, value)"
| "minimax_min val L board (m # moves) value best_move =
     (let score = val (push L board m)
      in if score < value then minimax_min val L board moves score (Some m)
         else minimax_min val L board moves value best_move)"

primrec minimax :: "'x chess \<Rightarrow> agent \<Rightarrow> 'x board \<Rightarrow> nat \<Rightarrow> bool \<Rightarrow> move option \<times> score" where
  "minimax L self board 0 player = (None, Fin (fst (evaluate L self board 0)))"
| "minimax L self board (Suc d) player =
     (if is_game_over L board then (None, Fin (fst (evaluate L self board 0)))
      else if turn board = player
      then minimax_max (\<lambda>b. snd (minimax L self b d player)) L board (legal_moves L board) NegInf None
      else minimax_min (\<lambda>b. snd (minimax L self b d player)) L board (legal_moves L board) PosInf None)"

text \<open>
  What a search with window \<open>(a, b)\<close> may return for a node of exact value \<open>exact\<close>:
  a value at or below \<open>a\<close> is an upper bound, a value at or above \<open>b\<close> a lower bound,
  a value strictly inside is exact.
\<close>

definition window_sound :: "score \<Rightarrow> score \<Rightarrow> score \<Rightarrow> score \<Rightarrow> bool" where
  "window_sound a b exact found =
     ((found \<le> a \<longrightarrow> exact \<le> found) \<and> (a < found \<and> found < b \<longrightarrow> found = exact)
      \<and> (b \<le> found \<longrightarrow> found \<le> exact))"

definition searcher_ok :: "('x board \<Rightarrow> score) \<Rightarrow> 'x searcher \<Rightarrow> bool" where
  "searcher_ok val search =
     (\<forall>b a be t. \<exists>mv s t'. search b a be t = Some ((mv, s), b, t')
         \<and> (a < be \<longrightarrow> window_sound a be (val b) s))"


text \<open>A searcher that always returns, leaves the board alone and gives a finite score.\<close>

definition searcher_fin :: "'x searcher \<Rightarrow> bool" where
  "searcher_fin search = (\<forall>b a be t. \<exists>mv x t'. search b a be t = Some ((mv, Fin x), b, t'))"


section \<open>The reference: passed pawns\<close>







section \<open>A small game for concrete runs\<close>

text \<open>
  A game with the library's interface on which the functions can be run: the board
  carries no pieces, a position is identified by the moves played, every position
  reached in fewer than two moves has the two legal moves \<open>move_a\<close> and \<open>move_b\<close>,
  and after two moves the game is over: the side to move is checkmated when the second
  move was \<open>move_a\<close> and stalemated otherwise.
\<close>

definition move_a :: move where "move_a = Move 0 1 None"
definition move_b :: move where "move_b = Move 0 8 None"

definition toy :: "unit chess" where
  "toy = \<lparr>legal_moves = (\<lambda>b. if length (move_stack b) < 2 then [move_a, move_b] else []),
          make_move = (\<lambda>b m. (piece_at b, ())),
          is_game_over = (\<lambda>b. length (move_stack b) \<ge> 2),
          is_checkmate = (\<lambda>b. length (move_stack b) \<ge> 2 \<and> last (move_stack b) = move_a),
          is_stalemate = (\<lambda>b. length (move_stack b) \<ge> 2 \<and> last (move_stack b) \<noteq> move_a),
          is_insufficient_material = (\<lambda>b. False),
          is_check = (\<lambda>b. length (move_stack b) \<ge> 2 \<and> last (move_stack b) = move_a),
          attackers = (\<lambda>b c sq. []),
          is_attacked_by = (\<lambda>b c sq. False),
          is_capture = (\<lambda>b m. False),
          parse_san = (\<lambda>b s. if s = ''a'' then Some move_a else if s = ''b'' then Some move_b else None)\<rparr>"

definition toy_root :: "unit board" where
  "toy_root = \<lparr>piece_at = (\<lambda>sq. None), turn = WHITE, rest = (), move_stack = [], stack = []\<rparr>"

definition toy_agent :: agent where
  "toy_agent = \<lparr>color = WHITE, test_opening_moves = [], magnus_moves = [],
                 opening_moves_played = 0, magnus_moves_played = 0, failed_moves_count = 0\<rparr>"


text \<open>A position of the small game in which the game is over (stalemate, no legal move).\<close>

definition toy_over :: "unit board" where
  "toy_over = push toy (push toy toy_root move_b) move_b"


text \<open>A clock whose readings pass the deadline of 10 from the seventh reading on.\<close>

definition toy_clock :: "nat \<Rightarrow> real" where
  "toy_clock n = (if n < 6 then 0 else 11)"


text \<open>
  Two agents for the small game (its \<open>parse_san\<close> reads \<open>''a''\<close> and \<open>''b''\<close>): White
  with an opening list that is used up and a history list that is not, and Black with a
  history list only.
\<close>

definition toy_book_agent :: agent where
  "toy_book_agent = \<lparr>color = WHITE, test_opening_moves = [''a''], magnus_moves = [''b''],
                      opening_moves_played = 1, magnus_moves_played = 0, failed_moves_count = 0\<rparr>"

definition toy_history_agent :: agent where
  "toy_history_agent = \<lparr>color = BLACK, test_opening_moves = [], magnus_moves = [''b''],
                      opening_moves_played = 0, magnus_moves_played = 0, failed_moves_count = 0\<rparr>"


section \<open>A pawn ending for concrete evaluations\<close>

text \<open>
  A chess position on which the evaluator can be run.  Before the move: White king e1,
  White pawns a2 and e4, Black king e8, Black pawn d5, Black to move.  Black plays
  \<open>pawn_takes\<close>, the capture d5xe4; \<open>endgame_position\<close> is the board after that push
  (White: king e1, pawn a2; Black: king e8, pawn e4; White to move).  The record
  \<open>endgame\<close> gives the library's answers for this position: the legal moves of either
  side, the attackers of each square, no check, no end of game, and
  \<^verbatim>\<open>is_capture\<close> of the last move.  \<open>move_piece\<close> executes a move that is not a
  castling, an en-passant capture or a promotion.
\<close>

definition move_piece :: "(square \<Rightarrow> piece option) \<Rightarrow> move \<Rightarrow> (square \<Rightarrow> piece option)" where
  "move_piece placement m =
     (\<lambda>sq. if sq = from_square m then None
           else if sq = to_square m then placement (from_square m)
           else placement sq)"

definition endgame_placement :: "square \<Rightarrow> piece option" where
  "endgame_placement sq =
     (if sq = 4 then Some (Piece KING WHITE) else if sq = 8 then Some (Piece PAWN WHITE)
      else if sq = 28 then Some (Piece PAWN WHITE) else if sq = 35 then Some (Piece PAWN BLACK)
      else if sq = 60 then Some (Piece KING BLACK) else None)"

definition endgame_start :: "unit board" where
  "endgame_start =
     \<lparr>piece_at = endgame_placement, turn = BLACK, rest = (), move_stack = [], stack = []\<rparr>"

definition pawn_takes :: move where
  "pawn_takes = Move 35 28 None"

definition endgame :: "unit chess" where
  "endgame =
     \<lparr>legal_moves = (\<lambda>b. if turn b
          then [Move 4 3 None, Move 4 5 None, Move 4 11 None, Move 4 12 None, Move 4 13 None,
                Move 8 16 None, Move 8 24 None]
          else [Move 60 59 None, Move 60 61 None, Move 60 51 None, Move 60 52 None,
                Move 60 53 None, Move 28 20 None]),
      make_move = (\<lambda>b m. (move_piece (piece_at b) m, ())),
      is_game_over = (\<lambda>b. False),
      is_checkmate = (\<lambda>b. False),
      is_stalemate = (\<lambda>b. False),
      is_insufficient_material = (\<lambda>b. False),
      is_check = (\<lambda>b. False),
      attackers = (\<lambda>b c sq. if c then (if sq \<in> {3, 5, 11, 12, 13} then [4]
                                        else if sq = 17 then [8] else [])
                            else (if sq \<in> {51, 52, 53, 59, 61} then [60]
                                  else if sq \<in> {19, 21} then [28] else [])),
      is_attacked_by = (\<lambda>b c sq. if c then sq \<in> {3, 5, 11, 12, 13, 17}
                                 else sq \<in> {51, 52, 53, 59, 61, 19, 21}),
      is_capture = (\<lambda>b m. True),
      parse_san = (\<lambda>b s. None)\<rparr>"

definition endgame_position :: "unit board" where
  "endgame_position = push endgame endgame_start pawn_takes"


section \<open>Basic facts\<close>

lemma pop_push: "pop (push L board m) = Some board"
  by (simp add: pop_def push_def split: prod.splits)

lemma mobility_board: "snd (mobility L b c) = b"
  by (simp add: mobility_def Let_def)

lemma mobility_eq: "mobility L b c = (length (legal_moves L (b\<lparr>turn := c\<rparr>)), b)"
  by (simp add: mobility_def Let_def)

lemma evaluate_board: "snd (evaluate L self board depth) = board"
  by (simp add: evaluate_def mobility_eq Let_def)

lemma max_loop_frame:
  assumes "\<And>b a be t. \<exists>r t'. search b a be t = Some (r, b, t')"
  shows "\<exists>r t'. max_loop L search board alpha beta moves v bm t = Some (r, board, t')"
proof (induction moves arbitrary: alpha v bm t)
  case Nil
  show ?case by simp
next
  case (Cons m moves)
  obtain r t1 where s: "search (push L board m) alpha beta t = Some (r, push L board m, t1)"
    using assms by blast
  obtain mv sc where r: "r = (mv, sc)" by (cases r)
  show ?case
    using Cons.IH by (simp add: s r pop_push Let_def split: prod.splits)
qed

lemma min_loop_frame:
  assumes "\<And>b a be t. \<exists>r t'. search b a be t = Some (r, b, t')"
  shows "\<exists>r t'. min_loop L search board alpha beta moves v bm t = Some (r, board, t')"
proof (induction moves arbitrary: beta v bm t)
  case Nil
  show ?case by simp
next
  case (Cons m moves)
  obtain r t1 where s: "search (push L board m) alpha beta t = Some (r, push L board m, t1)"
    using assms by blast
  obtain mv sc where r: "r = (mv, sc)" by (cases r)
  show ?case
    using Cons.IH by (simp add: s r pop_push Let_def split: prod.splits)
qed

lemma case_evaluate:
  "(case evaluate L self board depth of (e, b) \<Rightarrow> f e b) = f (fst (evaluate L self board depth)) board"
  by (metis evaluate_board case_prod_beta)

lemma alpha_beta_search_frame:
  "\<exists>r t'. alpha_beta_search L self clk board depth alpha beta player start_time time_limit t
      = Some (r, board, t')"
proof (induction depth arbitrary: board alpha beta t)
  case 0
  show ?case by (simp add: case_evaluate)
next
  case (Suc d)
  show ?case
    using max_loop_frame[of "\<lambda>board alpha beta t. alpha_beta_search L self clk board d alpha beta player start_time time_limit t", OF Suc.IH]
      min_loop_frame[of "\<lambda>board alpha beta t. alpha_beta_search L self clk board d alpha beta player start_time time_limit t", OF Suc.IH]
    by (simp add: case_evaluate del: max_loop.simps min_loop.simps)
qed

lemma le_NegInf_iff [simp]: "(x::score) \<le> NegInf \<longleftrightarrow> x = NegInf"
  by (cases x) simp_all

lemma PosInf_le_iff [simp]: "PosInf \<le> (x::score) \<longleftrightarrow> x = PosInf"
  by (cases x) simp_all

lemma PosInf_greatest [simp]: "(x::score) \<le> PosInf"
  by (cases x) simp_all

lemma NegInf_less_iff [simp]: "NegInf < (x::score) \<longleftrightarrow> x \<noteq> NegInf"
  by (cases x) (simp_all add: less_score_def)

lemma less_PosInf_iff [simp]: "(x::score) < PosInf \<longleftrightarrow> x \<noteq> PosInf"
  by (cases x) (simp_all add: less_score_def)

lemma not_less_NegInf [simp]: "\<not> (x::score) < NegInf"
  by (cases x) (simp_all add: less_score_def)

lemma not_PosInf_less [simp]: "\<not> PosInf < (x::score)"
  by (cases x) (simp_all add: less_score_def)

lemma Fin_less_Fin [simp]: "Fin x < Fin y \<longleftrightarrow> x < y"
  by (auto simp: less_score_def)

lemma minimax_max_value:
  "snd (minimax_max val L board ms v bm) = max v (snd (minimax_max val L board ms NegInf bm'))"
proof (induction ms arbitrary: v bm bm')
  case Nil
  show ?case by (simp add: max_def)
next
  case (Cons m ms)
  define s where "s = val (push L board m)"
  define T where "T = snd (minimax_max val L board ms NegInf None)"
  have h1: "snd (minimax_max val L board ms s (Some m)) = max s T"
    unfolding T_def by (rule Cons.IH)
  have h2: "snd (minimax_max val L board ms v bm) = max v T"
    unfolding T_def by (rule Cons.IH)
  have h3: "snd (minimax_max val L board ms NegInf bm') = max NegInf T"
    unfolding T_def by (rule Cons.IH)
  have "snd (minimax_max val L board (m # ms) v bm) = (if v < s then max s T else max v T)"
    by (simp add: s_def [symmetric] h1 h2)
  moreover have "snd (minimax_max val L board (m # ms) NegInf bm')
      = (if NegInf < s then max s T else max NegInf T)"
    by (simp add: s_def [symmetric] h1 h3)
  ultimately show ?case
    by (auto simp: max_def)
qed

lemma minimax_min_value:
  "snd (minimax_min val L board ms v bm) = min v (snd (minimax_min val L board ms PosInf bm'))"
proof (induction ms arbitrary: v bm bm')
  case Nil
  show ?case by (simp add: min_def)
next
  case (Cons m ms)
  define s where "s = val (push L board m)"
  define T where "T = snd (minimax_min val L board ms PosInf None)"
  have h1: "snd (minimax_min val L board ms s (Some m)) = min s T"
    unfolding T_def by (rule Cons.IH)
  have h2: "snd (minimax_min val L board ms v bm) = min v T"
    unfolding T_def by (rule Cons.IH)
  have h3: "snd (minimax_min val L board ms PosInf bm') = min PosInf T"
    unfolding T_def by (rule Cons.IH)
  have "snd (minimax_min val L board (m # ms) v bm) = (if s < v then min s T else min v T)"
    by (simp add: s_def [symmetric] h1 h2)
  moreover have "snd (minimax_min val L board (m # ms) PosInf bm')
      = (if s < PosInf then min s T else min PosInf T)"
    by (simp add: s_def [symmetric] h1 h3)
  ultimately show ?case
    by (auto simp: min_def)
qed

lemma pieces_empty: "piece_at board = (\<lambda>sq. None) \<Longrightarrow> pieces board pt c = []"
  by (simp add: pieces_def)

lemma piece_map_empty: "piece_at board = (\<lambda>sq. None) \<Longrightarrow> piece_map board = []"
  by (simp add: piece_map_def List.map_filter_def)

lemma evaluate_empty_quiet:
  assumes "piece_at board = (\<lambda>sq. None)" "\<not> is_checkmate L board" "\<not> is_stalemate L board"
    "\<not> is_insufficient_material L board" "\<And>c. is_attacked_by L board c = (\<lambda>sq. False)"
    "\<And>m. \<not> is_capture L board m"
    "length (legal_moves L (board\<lparr>turn := True\<rparr>)) = length (legal_moves L (board\<lparr>turn := False\<rparr>))"
  shows "evaluate L self board d = (- 2, board)"
  using assms
  apply (cases "color self")
  by (simp_all add: evaluate_def mobility_eq Let_def pieces_empty piece_map_empty material_count_def
      piece_types_def reward_passed_pawns_def penalize_passed_pawns_def counter_threat_bonus_def
      piece_safety_def capture_opportunities_def central_control_def central_squares_def
      coordination_bonus_def discourage_non_positive_captures_def positional_improvement_check_def
      dominant_position_capture_penalty_def forced_mate_heuristic_def)

lemma evaluate_checkmate:
  "is_checkmate L board \<Longrightarrow> evaluate L self board d =
     (if turn board \<noteq> color self then 10000 - real_of_int d else - 10000 + real_of_int d, board)"
  by (simp add: evaluate_def)

lemma evaluate_draw:
  "\<not> is_checkmate L board \<Longrightarrow> is_stalemate L board \<or> is_insufficient_material L board \<Longrightarrow>
     evaluate L self board d = (0, board)"
  by (simp add: evaluate_def)

lemmas toy_simps = toy_def toy_root_def toy_agent_def push_def pop_def move_a_def move_b_def
  evaluate_checkmate evaluate_draw evaluate_empty_quiet


section \<open>C6: the search leaves the board as it found it\<close>

text \<open>
  C6.  Every call of \<open>alpha_beta_search\<close> returns (it does not raise), and the board it
  returns is the board it was given, whole record compared (placement, side to move,
  move stack, saved positions), whatever the exit path: leaf return, deadline return,
  loop end or cutoff.  The same holds for \<open>evaluate\<close> and for \<open>mobility\<close>, which
  writes the turn and writes it back; and a \<open>pop\<close> after a \<open>push\<close> gives the
  board back.
\<close>

theorem search_leaves_board_unchanged:
  "(\<exists>r t'. alpha_beta_search L self clk board depth alpha beta player start_time time_limit t
       = Some (r, board, t'))
   \<and> snd (evaluate L self board d) = board
   \<and> snd (mobility L board c) = board
   \<and> pop (push L board m) = Some board"
  using alpha_beta_search_frame [of L self clk board depth alpha beta player start_time time_limit t]
  by (simp add: evaluate_board mobility_board pop_push)

theorem search_leaves_board_unchanged_witness:
  "(\<exists>r t'. alpha_beta_search toy toy_agent (\<lambda>n. 0) toy_root (Suc (Suc 0)) NegInf PosInf WHITE 0 10 0
       = Some (r, toy_root, t'))
   \<and> snd (evaluate toy toy_agent toy_root 0) = toy_root
   \<and> snd (mobility toy toy_root BLACK) = toy_root
   \<and> pop (push toy toy_root move_a) = Some toy_root"
  using search_leaves_board_unchanged [of toy toy_agent "\<lambda>n. 0" toy_root "Suc (Suc 0)" NegInf PosInf
      WHITE 0 10 0 0 BLACK move_a]
  by simp

section \<open>C1: alpha-beta against full minimax\<close>

text \<open>Order facts about one step of a loop with a window.\<close>

lemma window_max_cut:
  fixes v :: "'a::linorder"
  assumes "v \<le> a" "a < be" "(s \<le> a \<longrightarrow> c \<le> s) \<and> (a < s \<and> s < be \<longrightarrow> s = c) \<and> (be \<le> s \<longrightarrow> s \<le> c)"
    "be \<le> max a (max v s)"
  shows "v \<le> max v s \<and> (max v s \<le> a \<longrightarrow> max c T \<le> max v s)
    \<and> (a < max v s \<and> max v s < be \<longrightarrow> max v s = max c T) \<and> (be \<le> max v s \<longrightarrow> max v s \<le> max c T)"
  using assms unfolding max_def
  by (auto split: if_splits)

lemma window_max_go:
  fixes v :: "'a::linorder"
  assumes "v \<le> a" "a < be" "(s \<le> a \<longrightarrow> c \<le> s) \<and> (a < s \<and> s < be \<longrightarrow> s = c) \<and> (be \<le> s \<longrightarrow> s \<le> c)"
    "\<not> be \<le> max a (max v s)" "max v s \<le> r"
    "(r \<le> max a (max v s) \<longrightarrow> T \<le> r) \<and> (max a (max v s) < r \<and> r < be \<longrightarrow> r = T) \<and> (be \<le> r \<longrightarrow> r \<le> T)"
  shows "v \<le> r \<and> (r \<le> a \<longrightarrow> max c T \<le> r) \<and> (a < r \<and> r < be \<longrightarrow> r = max c T) \<and> (be \<le> r \<longrightarrow> r \<le> max c T)"
  using assms
  by (metis (no_types, lifting) dual_order.strict_iff_not max.coboundedI1
    max.order_iff max_def)

lemma window_min_cut:
  fixes v :: "'a::linorder"
  assumes "be \<le> v" "a < be" "(s \<le> a \<longrightarrow> c \<le> s) \<and> (a < s \<and> s < be \<longrightarrow> s = c) \<and> (be \<le> s \<longrightarrow> s \<le> c)"
    "min be (min v s) \<le> a"
  shows "min v s \<le> v \<and> (min v s \<le> a \<longrightarrow> min c T \<le> min v s)
    \<and> (a < min v s \<and> min v s < be \<longrightarrow> min v s = min c T) \<and> (be \<le> min v s \<longrightarrow> min v s \<le> min c T)"
  using assms unfolding min_def
  by (auto split: if_splits)

lemma window_min_go:
  fixes v :: "'a::linorder"
  assumes "be \<le> v" "a < be" "(s \<le> a \<longrightarrow> c \<le> s) \<and> (a < s \<and> s < be \<longrightarrow> s = c) \<and> (be \<le> s \<longrightarrow> s \<le> c)"
    "\<not> min be (min v s) \<le> a" "r \<le> min v s"
    "(r \<le> a \<longrightarrow> T \<le> r) \<and> (a < r \<and> r < min be (min v s) \<longrightarrow> r = T) \<and> (min be (min v s) \<le> r \<longrightarrow> r \<le> T)"
  shows "r \<le> v \<and> (r \<le> a \<longrightarrow> min c T \<le> r) \<and> (a < r \<and> r < be \<longrightarrow> r = min c T) \<and> (be \<le> r \<longrightarrow> r \<le> min c T)"
  using assms
  by (smt (verit, best) linorder_not_less min.absorb2 min.bounded_iff
    min_le_iff_disj order_antisym_conv)


lemma minimax_max_Cons_value:
  "snd (minimax_max val L board (m # ms) NegInf None)
     = max (val (push L board m)) (snd (minimax_max val L board ms NegInf None))"
proof -
  have "snd (minimax_max val L board ms (val (push L board m)) (Some m))
      = max (val (push L board m)) (snd (minimax_max val L board ms NegInf None))"
    by (rule minimax_max_value)
  then show ?thesis
    by (auto simp: Let_def max_def)
qed

lemma minimax_min_Cons_value:
  "snd (minimax_min val L board (m # ms) PosInf None)
     = min (val (push L board m)) (snd (minimax_min val L board ms PosInf None))"
proof -
  have "snd (minimax_min val L board ms (val (push L board m)) (Some m))
      = min (val (push L board m)) (snd (minimax_min val L board ms PosInf None))"
    by (rule minimax_min_value)
  then show ?thesis
    by (auto simp: Let_def min_def)
qed

lemma searcher_okD:
  assumes "searcher_ok val search"
  obtains mv s t' where "search b a be t = Some ((mv, s), b, t')"
    and "a < be \<Longrightarrow> window_sound a be (val b) s"
  using assms unfolding searcher_ok_def by blast

lemma max_loop_Cons:
  assumes "search (push L board m) a be t = Some ((mv, s), b2, t1)" "pop b2 = Some b3"
  shows "max_loop L search board a be (m # ms) v bm t =
    (if be \<le> max a (max v s) then Some ((if v < s then Some m else bm, max v s), b3, t1)
     else max_loop L search b3 (max a (max v s)) be ms (max v s) (if v < s then Some m else bm) t1)"
proof (cases "v < s")
  case True
  then have "max v s = s" by (simp add: max.absorb2)
  then show ?thesis using True assms by (simp add: Let_def)
next
  case False
  then have "max v s = v" by (simp add: max.absorb1)
  then show ?thesis using False assms by (simp add: Let_def)
qed

lemma min_loop_Cons:
  assumes "search (push L board m) a be t = Some ((mv, s), b2, t1)" "pop b2 = Some b3"
  shows "min_loop L search board a be (m # ms) v bm t =
    (if min be (min v s) \<le> a then Some ((if s < v then Some m else bm, min v s), b3, t1)
     else min_loop L search b3 a (min be (min v s)) ms (min v s) (if s < v then Some m else bm) t1)"
proof (cases "s < v")
  case True
  then have "min v s = s" by (simp add: min.absorb2)
  then show ?thesis using True assms by (simp add: Let_def)
next
  case False
  then have "min v s = v" by (simp add: min.absorb1)
  then show ?thesis using False assms by (simp add: Let_def)
qed

lemma max_loop_window:
  assumes ok: "searcher_ok val search"
  shows "v \<le> a \<Longrightarrow> a < be \<Longrightarrow>
    \<exists>bm' r t'. max_loop L search board a be ms v bm t = Some ((bm', r), board, t')
       \<and> v \<le> r \<and> window_sound a be (snd (minimax_max val L board ms NegInf None)) r"
proof (induction ms arbitrary: v a bm t)
  case Nil
  then show ?case
    by (auto simp: window_sound_def)
next
  case (Cons m ms)
  obtain mv s t1 where s: "search (push L board m) a be t = Some ((mv, s), push L board m, t1)"
    and w: "window_sound a be (val (push L board m)) s"
    using searcher_okD [OF ok, of "push L board m" a be t] Cons.prems by blast
  define T where "T = snd (minimax_max val L board ms NegInf None)"
  define c where "c = val (push L board m)"
  have T: "snd (minimax_max val L board (m # ms) NegInf None) = max c T"
    unfolding T_def c_def by (rule minimax_max_Cons_value)
  have w': "(s \<le> a \<longrightarrow> c \<le> s) \<and> (a < s \<and> s < be \<longrightarrow> s = c) \<and> (be \<le> s \<longrightarrow> s \<le> c)"
    using w unfolding window_sound_def c_def .
  note step = max_loop_Cons [where search = search and L = L and board = board and m = m
      and ms = ms and v = v and bm = bm, OF s pop_push]
  show ?case
  proof (cases "be \<le> max a (max v s)")
    case True
    have res: "max_loop L search board a be (m # ms) v bm t
        = Some ((if v < s then Some m else bm, max v s), board, t1)"
      using True step by simp
    have "v \<le> max v s \<and> window_sound a be (max c T) (max v s)"
      unfolding window_sound_def
      by (rule window_max_cut [OF Cons.prems(1) Cons.prems(2) w' True])
    then show ?thesis
      unfolding T res by blast
  next
    case False
    have res: "max_loop L search board a be (m # ms) v bm t
        = max_loop L search board (max a (max v s)) be ms (max v s) (if v < s then Some m else bm) t1"
      using False step by simp
    have "max v s \<le> max a (max v s)"
      by (rule max.cobounded2)
    moreover have "max a (max v s) < be"
      using False by (simp only: not_le)
    ultimately have "\<exists>bm' r t'. max_loop L search board (max a (max v s)) be ms (max v s)
          (if v < s then Some m else bm) t1 = Some ((bm', r), board, t')
       \<and> max v s \<le> r \<and> window_sound (max a (max v s)) be (snd (minimax_max val L board ms NegInf None)) r"
      by (rule Cons.IH)
    then     obtain bm' r t' where r: "max_loop L search board (max a (max v s)) be ms (max v s)
          (if v < s then Some m else bm) t1 = Some ((bm', r), board, t')"
      and vr: "max v s \<le> r" and wr: "window_sound (max a (max v s)) be T r"
      unfolding T_def by blast
    have "v \<le> r \<and> (r \<le> a \<longrightarrow> max c T \<le> r) \<and> (a < r \<and> r < be \<longrightarrow> r = max c T)
        \<and> (be \<le> r \<longrightarrow> r \<le> max c T)"
      using window_max_go [OF Cons.prems(1) Cons.prems(2) w' False vr] wr
      unfolding window_sound_def by blast
    then show ?thesis
      unfolding T res r window_sound_def by blast
  qed
qed

lemma min_loop_window:
  assumes ok: "searcher_ok val search"
  shows "be \<le> v \<Longrightarrow> a < be \<Longrightarrow>
    \<exists>bm' r t'. min_loop L search board a be ms v bm t = Some ((bm', r), board, t')
       \<and> r \<le> v \<and> window_sound a be (snd (minimax_min val L board ms PosInf None)) r"
proof (induction ms arbitrary: v be bm t)
  case Nil
  then show ?case
    by (auto simp: window_sound_def)
next
  case (Cons m ms)
  obtain mv s t1 where s: "search (push L board m) a be t = Some ((mv, s), push L board m, t1)"
    and w: "window_sound a be (val (push L board m)) s"
    using searcher_okD [OF ok, of "push L board m" a be t] Cons.prems by blast
  define T where "T = snd (minimax_min val L board ms PosInf None)"
  define c where "c = val (push L board m)"
  have T: "snd (minimax_min val L board (m # ms) PosInf None) = min c T"
    unfolding T_def c_def by (rule minimax_min_Cons_value)
  have w': "(s \<le> a \<longrightarrow> c \<le> s) \<and> (a < s \<and> s < be \<longrightarrow> s = c) \<and> (be \<le> s \<longrightarrow> s \<le> c)"
    using w unfolding window_sound_def c_def .
  note step = min_loop_Cons [where search = search and L = L and board = board and m = m
      and ms = ms and v = v and bm = bm, OF s pop_push]
  show ?case
  proof (cases "min be (min v s) \<le> a")
    case True
    have res: "min_loop L search board a be (m # ms) v bm t
        = Some ((if s < v then Some m else bm, min v s), board, t1)"
      using True step by simp
    have "min v s \<le> v \<and> window_sound a be (min c T) (min v s)"
      unfolding window_sound_def
      by (rule window_min_cut [OF Cons.prems(1) Cons.prems(2) w' True])
    then show ?thesis
      unfolding T res by blast
  next
    case False
    have res: "min_loop L search board a be (m # ms) v bm t
        = min_loop L search board a (min be (min v s)) ms (min v s) (if s < v then Some m else bm) t1"
      using False step by simp
    have "min be (min v s) \<le> min v s"
      by (rule min.cobounded2)
    moreover have "a < min be (min v s)"
      using False by (simp only: not_le)
    ultimately have "\<exists>bm' r t'. min_loop L search board a (min be (min v s)) ms (min v s)
          (if s < v then Some m else bm) t1 = Some ((bm', r), board, t')
       \<and> r \<le> min v s \<and> window_sound a (min be (min v s)) (snd (minimax_min val L board ms PosInf None)) r"
      by (rule Cons.IH)
    then obtain bm' r t' where r: "min_loop L search board a (min be (min v s)) ms (min v s)
          (if s < v then Some m else bm) t1 = Some ((bm', r), board, t')"
      and vr: "r \<le> min v s" and wr: "window_sound a (min be (min v s)) T r"
      unfolding T_def by blast
    have "r \<le> v \<and> (r \<le> a \<longrightarrow> min c T \<le> r) \<and> (a < r \<and> r < be \<longrightarrow> r = min c T)
        \<and> (be \<le> r \<longrightarrow> r \<le> min c T)"
      using window_min_go [OF Cons.prems(1) Cons.prems(2) w' False vr] wr
      unfolding window_sound_def by blast
    then show ?thesis
      unfolding T res r window_sound_def by blast
  qed
qed

lemma alpha_beta_search_window:
  assumes quiet: "\<forall>n. \<not> clk n - start_time > time_limit"
  shows "searcher_ok (\<lambda>b. snd (minimax L self b d player))
     (\<lambda>board alpha beta t. alpha_beta_search L self clk board d alpha beta player start_time time_limit t)"
proof (induction d)
  case 0
  show ?case
    by (simp add: searcher_ok_def case_evaluate window_sound_def)
next
  case (Suc d)
  let ?val = "\<lambda>b. snd (minimax L self b d player)"
  let ?search = "\<lambda>board alpha beta t. alpha_beta_search L self clk board d alpha beta player start_time time_limit t"
  show ?case
    unfolding searcher_ok_def
  proof (intro allI)
    fix b a be t
    consider (over) "is_game_over L b" | (maxn) "\<not> is_game_over L b" "turn b = player"
      | (minn) "\<not> is_game_over L b" "turn b \<noteq> player"
      by blast
    then show "\<exists>mv s t'. alpha_beta_search L self clk b (Suc d) a be player start_time time_limit t
          = Some ((mv, s), b, t')
        \<and> (a < be \<longrightarrow> window_sound a be (snd (minimax L self b (Suc d) player)) s)"
    proof cases
      case over
      then show ?thesis
        by (simp add: case_evaluate window_sound_def)
    next
      case maxn
      show ?thesis
      proof (cases "a < be")
        case True
        from max_loop_window [OF Suc, of NegInf a be L b "legal_moves L b" None "Suc t"] True
        show ?thesis
          using maxn quiet by (simp del: max_loop.simps)
      next
        case False
        from max_loop_frame [of ?search L b a be "legal_moves L b" NegInf None "Suc t"]
          alpha_beta_search_frame [of L self clk _ d _ _ player start_time time_limit]
        show ?thesis
          using maxn quiet False by (simp del: max_loop.simps)
      qed
    next
      case minn
      show ?thesis
      proof (cases "a < be")
        case True
        from min_loop_window [OF Suc, of be PosInf a L b "legal_moves L b" None "Suc t"] True
        show ?thesis
          using minn quiet by (simp del: min_loop.simps)
      next
        case False
        from min_loop_frame [of ?search L b a be "legal_moves L b" PosInf None "Suc t"]
          alpha_beta_search_frame [of L self clk _ d _ _ player start_time time_limit]
        show ?thesis
          using minn quiet False by (simp del: min_loop.simps)
      qed
    qed
  qed
qed

lemma minimax_max_top: "minimax_max val L board ms PosInf bm = (bm, PosInf)"
  by (induction ms) simp_all

lemma minimax_min_bottom: "minimax_min val L board ms NegInf bm = (bm, NegInf)"
  by (induction ms) simp_all

lemma max_loop_root:
  assumes ok: "searcher_ok val search"
  shows "v \<noteq> PosInf \<Longrightarrow>
    \<exists>t'. max_loop L search board v PosInf ms v bm t = Some (minimax_max val L board ms v bm, board, t')"
proof (induction ms arbitrary: v bm t)
  case Nil
  show ?case by simp
next
  case (Cons m ms)
  define c where "c = val (push L board m)"
  obtain mv s t1 where s: "search (push L board m) v PosInf t = Some ((mv, s), push L board m, t1)"
    and w: "window_sound v PosInf c s"
    using searcher_okD [OF ok, of "push L board m" v PosInf t] Cons.prems unfolding c_def by auto
  note step = max_loop_Cons [where search = search and L = L and board = board and m = m
      and ms = ms and v = v and bm = bm, OF s pop_push]
  have mm: "minimax_max val L board (m # ms) v bm
      = (if v < c then minimax_max val L board ms c (Some m) else minimax_max val L board ms v bm)"
    by (simp add: c_def Let_def)
  show ?case
  proof (cases "v < s")
    case True
    then have sc: "s = c"
      using w unfolding window_sound_def by (cases "s = PosInf") auto
    have ms: "max v s = c" "max v c = c"
      using True sc by (simp_all add: max.absorb2)
    show ?thesis
    proof (cases "c = PosInf")
      case True
      then show ?thesis
        unfolding step mm using \<open>v < s\<close> sc ms by (simp add: minimax_max_top)
    next
      case False
      from Cons.IH [OF False, of "Some m" t1] show ?thesis
        unfolding step mm using \<open>v < s\<close> sc ms False by simp
    qed
  next
    case False
    then have "s \<le> v" by simp
    then have "c \<le> v"
      using w unfolding window_sound_def by auto
    then have nc: "\<not> v < c" by simp
    have ms: "max v s = v"
      using \<open>s \<le> v\<close> by (simp add: max.absorb1)
    from Cons.IH [OF Cons.prems, of bm t1] show ?thesis
      unfolding step mm using False nc ms Cons.prems by simp
  qed
qed

lemma min_loop_root:
  assumes ok: "searcher_ok val search"
  shows "v \<noteq> NegInf \<Longrightarrow>
    \<exists>t'. min_loop L search board NegInf v ms v bm t = Some (minimax_min val L board ms v bm, board, t')"
proof (induction ms arbitrary: v bm t)
  case Nil
  show ?case by simp
next
  case (Cons m ms)
  define c where "c = val (push L board m)"
  obtain mv s t1 where s: "search (push L board m) NegInf v t = Some ((mv, s), push L board m, t1)"
    and w: "window_sound NegInf v c s"
    using searcher_okD [OF ok, of "push L board m" NegInf v t] Cons.prems unfolding c_def by auto
  note step = min_loop_Cons [where search = search and L = L and board = board and m = m
      and ms = ms and v = v and bm = bm, OF s pop_push]
  have mm: "minimax_min val L board (m # ms) v bm
      = (if c < v then minimax_min val L board ms c (Some m) else minimax_min val L board ms v bm)"
    by (simp add: c_def Let_def)
  show ?case
  proof (cases "s < v")
    case True
    then have sc: "s = c"
      using w unfolding window_sound_def by (cases "s = NegInf") auto
    have ms: "min v s = c" "min v c = c"
      using True sc by (simp_all add: min.absorb2)
    show ?thesis
    proof (cases "c = NegInf")
      case True
      then show ?thesis
        unfolding step mm using \<open>s < v\<close> sc ms by (simp add: minimax_min_bottom)
    next
      case False
      from Cons.IH [OF False, of "Some m" t1] show ?thesis
        unfolding step mm using \<open>s < v\<close> sc ms False by simp
    qed
  next
    case False
    then have "v \<le> s" by simp
    then have "v \<le> c"
      using w unfolding window_sound_def by auto
    then have nc: "\<not> c < v" by simp
    have ms: "min v s = v"
      using \<open>v \<le> s\<close> by (simp add: min.absorb1)
    from Cons.IH [OF Cons.prems, of bm t1] show ?thesis
      unfolding step mm using False nc ms Cons.prems by simp
  qed
qed


text \<open>
  C1.  When no reading of the clock is past the deadline (the deadline test of no node
  ever fires), \<open>alpha_beta_search\<close> called with the window \<open>(-inf, +inf)\<close> returns,
  for every position, depth and fixed side \<open>player\<close>, exactly the move and the score of
  the full minimax of that depth, and the board unchanged.
\<close>

theorem alpha_beta_equals_minimax:
  assumes "\<forall>n. \<not> clk n - start_time > time_limit"
  shows "\<exists>t'. alpha_beta_search L self clk board depth NegInf PosInf player start_time time_limit t
     = Some (minimax L self board depth player, board, t')"
proof (cases depth)
  case 0
  then show ?thesis by (simp add: case_evaluate)
next
  case (Suc d)
  note ok = alpha_beta_search_window [OF assms, of L self d player]
  show ?thesis
    using max_loop_root [OF ok, of NegInf L board "legal_moves L board" None "Suc t"]
      min_loop_root [OF ok, of PosInf L board "legal_moves L board" None "Suc t"] assms
    by (simp add: Suc case_evaluate del: max_loop.simps min_loop.simps)
qed

theorem alpha_beta_equals_minimax_witness:
  "(\<forall>n. \<not> (\<lambda>n. 0::real) n - 0 > 10)
   \<and> (\<exists>t'. alpha_beta_search toy toy_agent (\<lambda>n. 0) toy_root (Suc (Suc 0)) NegInf PosInf WHITE 0 10 0
         = Some ((Some move_a, Fin (- 10000)), toy_root, t'))
   \<and> minimax toy toy_agent toy_root (Suc (Suc 0)) WHITE = (Some move_a, Fin (- 10000))"
proof -
  have quiet: "\<forall>n. \<not> (\<lambda>n. 0::real) n - 0 > 10"
    by simp
  have mm: "minimax toy toy_agent toy_root (Suc (Suc 0)) WHITE = (Some move_a, Fin (- 10000))"
    by (simp add: toy_simps)
  show ?thesis
    using alpha_beta_equals_minimax [OF quiet, of toy toy_agent toy_root "Suc (Suc 0)" WHITE 0] quiet
    unfolding mm by simp
qed

section \<open>C10: the move is none exactly at the leaves\<close>

lemma max_loop_finds_move:
  assumes fin: "searcher_fin search"
  shows "(v = NegInf \<and> ms \<noteq> []) \<or> (\<exists>x. v = Fin x \<and> bm \<noteq> None) \<Longrightarrow>
    \<exists>m x t'. max_loop L search board a be ms v bm t = Some ((Some m, Fin x), board, t')"
proof (induction ms arbitrary: v bm a t)
  case Nil
  then show ?case by auto
next
  case (Cons m ms)
  obtain mv y t1 where s: "search (push L board m) a be t = Some ((mv, Fin y), push L board m, t1)"
    using fin unfolding searcher_fin_def by blast
  note step = max_loop_Cons [where search = search and L = L and board = board and m = m
      and ms = ms and v = v and bm = bm, OF s pop_push]
  have inv: "\<exists>x. max v (Fin y) = Fin x \<and> (if v < Fin y then Some m else bm) \<noteq> None"
    using Cons.prems by (cases v) (auto simp: max_def)
  then obtain x where x: "max v (Fin y) = Fin x" and bm: "(if v < Fin y then Some m else bm) \<noteq> None"
    by blast
  show ?case
  proof (cases "be \<le> max a (max v (Fin y))")
    case True
    then show ?thesis
      unfolding step using x bm by auto
  next
    case False
    have "\<exists>m' x' t'. max_loop L search board (max a (max v (Fin y))) be ms (max v (Fin y))
        (if v < Fin y then Some m else bm) t1 = Some ((Some m', Fin x'), board, t')"
      by (rule Cons.IH) (use inv in blast)
    then show ?thesis
      unfolding step using False by simp
  qed
qed

lemma min_loop_finds_move:
  assumes fin: "searcher_fin search"
  shows "(v = PosInf \<and> ms \<noteq> []) \<or> (\<exists>x. v = Fin x \<and> bm \<noteq> None) \<Longrightarrow>
    \<exists>m x t'. min_loop L search board a be ms v bm t = Some ((Some m, Fin x), board, t')"
proof (induction ms arbitrary: v bm be t)
  case Nil
  then show ?case by auto
next
  case (Cons m ms)
  obtain mv y t1 where s: "search (push L board m) a be t = Some ((mv, Fin y), push L board m, t1)"
    using fin unfolding searcher_fin_def by blast
  note step = min_loop_Cons [where search = search and L = L and board = board and m = m
      and ms = ms and v = v and bm = bm, OF s pop_push]
  have inv: "\<exists>x. min v (Fin y) = Fin x \<and> (if Fin y < v then Some m else bm) \<noteq> None"
    using Cons.prems by (cases v) (auto simp: min_def)
  then obtain x where x: "min v (Fin y) = Fin x" and bm: "(if Fin y < v then Some m else bm) \<noteq> None"
    by blast
  show ?case
  proof (cases "min be (min v (Fin y)) \<le> a")
    case True
    then show ?thesis
      unfolding step using x bm by auto
  next
    case False
    have "\<exists>m' x' t'. min_loop L search board a (min be (min v (Fin y))) ms (min v (Fin y))
        (if Fin y < v then Some m else bm) t1 = Some ((Some m', Fin x'), board, t')"
      by (rule Cons.IH) (use inv in blast)
    then show ?thesis
      unfolding step using False by simp
  qed
qed

lemma alpha_beta_search_fin:
  assumes contract: "\<forall>b. \<not> is_game_over L b \<longrightarrow> legal_moves L b \<noteq> []"
  shows "searcher_fin (\<lambda>board alpha beta t.
     alpha_beta_search L self clk board d alpha beta player start_time time_limit t)"
proof (induction d)
  case 0
  show ?case by (simp add: searcher_fin_def case_evaluate)
next
  case (Suc d)
  show ?case
    unfolding searcher_fin_def
  proof (intro allI)
    fix b a be t
    show "\<exists>mv x t'. alpha_beta_search L self clk b (Suc d) a be player start_time time_limit t
        = Some ((mv, Fin x), b, t')"
    proof (cases "is_game_over L b \<or> clk t - start_time > time_limit")
      case True
      then show ?thesis by (auto simp: case_evaluate)
    next
      case False
      then have ms: "legal_moves L b \<noteq> []"
        using contract by blast
      show ?thesis
        using False ms
          max_loop_finds_move [OF Suc, of NegInf "legal_moves L b" None L b a be "Suc t"]
          min_loop_finds_move [OF Suc, of PosInf "legal_moves L b" None L b a be "Suc t"]
        by (auto simp del: max_loop.simps min_loop.simps)
    qed
  qed
qed


lemma alpha_beta_search_move_none_iff:
  assumes "\<forall>b. \<not> is_game_over L b \<longrightarrow> legal_moves L b \<noteq> []"
  shows "\<exists>mv s t'. alpha_beta_search L self clk board depth alpha beta player start_time time_limit t
        = Some ((mv, s), board, t')
      \<and> (mv = None \<longleftrightarrow> depth = 0 \<or> is_game_over L board \<or> clk t - start_time > time_limit)"
proof (cases depth)
  case 0
  then show ?thesis by (simp add: case_evaluate)
next
  case (Suc d)
  note fin = alpha_beta_search_fin [OF assms, of self clk d player start_time time_limit]
  show ?thesis
  proof (cases "is_game_over L board \<or> clk t - start_time > time_limit")
    case True
    then show ?thesis by (auto simp: Suc case_evaluate)
  next
    case False
    then have ms: "legal_moves L board \<noteq> []"
      using assms by blast
    show ?thesis
      using False ms
        max_loop_finds_move [OF fin, of NegInf "legal_moves L board" None L board alpha beta "Suc t"]
        min_loop_finds_move [OF fin, of PosInf "legal_moves L board" None L board alpha beta "Suc t"]
      by (auto simp: Suc simp del: max_loop.simps min_loop.simps)
  qed
qed

text \<open>
  C10.  The library guarantees that a position that is not game over has a legal move
  (no legal move means checkmate or stalemate); this is the assumption on \<open>L\<close>.  Then
  every call of \<open>alpha_beta_search\<close> returns, and its move is \<open>None\<close> exactly when the
  depth is 0, the game is over, or the clock reading at the entry of the node is past
  the deadline; in every other call (whatever \<open>alpha\<close> and \<open>beta\<close>) the first child
  gives a finite score, which improves the initial infinite bound, so a move is
  returned.
\<close>

theorem move_none_exactly_at_leaves:
  assumes "\<forall>b. \<not> is_game_over L b \<longrightarrow> legal_moves L b \<noteq> []"
  shows "\<exists>mv s t'. alpha_beta_search L self clk board depth alpha beta player start_time time_limit t
        = Some ((mv, s), board, t')
      \<and> (mv = None \<longleftrightarrow> depth = 0 \<or> is_game_over L board \<or> clk t - start_time > time_limit)"
  using assms by (rule alpha_beta_search_move_none_iff)

theorem move_none_exactly_at_leaves_witness:
  "(\<forall>b. is_game_over toy b \<or> legal_moves toy b \<noteq> [])
   \<and> (\<exists>mv s t'. alpha_beta_search toy toy_agent (\<lambda>n. 0) toy_root (Suc (Suc 0)) NegInf PosInf WHITE 0 10 0
          = Some ((mv, s), toy_root, t')
        \<and> (mv = None) = (Suc (Suc 0) = 0 \<or> is_game_over toy toy_root \<or> (\<lambda>n. 0::real) 0 - 0 > 10))"
proof -
  have contract: "\<forall>b. \<not> is_game_over toy b \<longrightarrow> legal_moves toy b \<noteq> []"
    by (simp add: toy_def)
  show ?thesis
    using move_none_exactly_at_leaves [OF contract, of toy_agent "\<lambda>n. 0" toy_root "Suc (Suc 0)"
        NegInf PosInf WHITE 0 10 0] contract
    by blast
qed

section \<open>C9: the search of depth 1\<close>

text \<open>
  The result of a full scan of the children: either nothing improved on the starting
  value, or the move kept is the first one, in enumeration order, with the best value.
\<close>

lemma minimax_max_first_best:
  fixes val L board
  defines "c \<equiv> \<lambda>m. val (push L board m)"
  shows "(minimax_max val L board ms v bm = (bm, v) \<and> (\<forall>x\<in>set ms. c x \<le> v))
     \<or> (\<exists>pre m post. ms = pre @ m # post \<and> minimax_max val L board ms v bm = (Some m, c m)
           \<and> v < c m \<and> (\<forall>x\<in>set pre. c x < c m) \<and> (\<forall>x\<in>set post. c x \<le> c m))"
proof (induction ms arbitrary: v bm)
  case Nil
  show ?case by simp
next
  case (Cons m0 ms)
  show ?case
  proof (cases "v < c m0")
    case True
    have step: "minimax_max val L board (m0 # ms) v bm = minimax_max val L board ms (c m0) (Some m0)"
      using True by (simp add: c_def)
    from Cons.IH [of "c m0" "Some m0"] show ?thesis
    proof (elim disjE exE conjE)
      assume "minimax_max val L board ms (c m0) (Some m0) = (Some m0, c m0)" "\<forall>x\<in>set ms. c x \<le> c m0"
      then have "m0 # ms = [] @ m0 # ms \<and> minimax_max val L board (m0 # ms) v bm = (Some m0, c m0)
           \<and> v < c m0 \<and> (\<forall>x\<in>set []. c x < c m0) \<and> (\<forall>x\<in>set ms. c x \<le> c m0)"
        using True step by simp
      then show ?thesis by blast
    next
      fix pre m post
      assume "ms = pre @ m # post" "minimax_max val L board ms (c m0) (Some m0) = (Some m, c m)"
        "c m0 < c m" "\<forall>x\<in>set pre. c x < c m" "\<forall>x\<in>set post. c x \<le> c m"
      then have "m0 # ms = (m0 # pre) @ m # post \<and> minimax_max val L board (m0 # ms) v bm = (Some m, c m)
           \<and> v < c m \<and> (\<forall>x\<in>set (m0 # pre). c x < c m) \<and> (\<forall>x\<in>set post. c x \<le> c m)"
        using True step by auto
      then show ?thesis by blast
    qed
  next
    case False
    have step: "minimax_max val L board (m0 # ms) v bm = minimax_max val L board ms v bm"
      using False by (simp add: c_def)
    from Cons.IH [of v bm] show ?thesis
    proof (elim disjE exE conjE)
      assume "minimax_max val L board ms v bm = (bm, v)" "\<forall>x\<in>set ms. c x \<le> v"
      then show ?thesis
        using False step by auto
    next
      fix pre m post
      assume "ms = pre @ m # post" "minimax_max val L board ms v bm = (Some m, c m)"
        "v < c m" "\<forall>x\<in>set pre. c x < c m" "\<forall>x\<in>set post. c x \<le> c m"
      then have "m0 # ms = (m0 # pre) @ m # post \<and> minimax_max val L board (m0 # ms) v bm = (Some m, c m)
           \<and> v < c m \<and> (\<forall>x\<in>set (m0 # pre). c x < c m) \<and> (\<forall>x\<in>set post. c x \<le> c m)"
        using False step by auto
      then show ?thesis by blast
    qed
  qed
qed

lemma minimax_min_first_best:
  fixes val L board
  defines "c \<equiv> \<lambda>m. val (push L board m)"
  shows "(minimax_min val L board ms v bm = (bm, v) \<and> (\<forall>x\<in>set ms. v \<le> c x))
     \<or> (\<exists>pre m post. ms = pre @ m # post \<and> minimax_min val L board ms v bm = (Some m, c m)
           \<and> c m < v \<and> (\<forall>x\<in>set pre. c m < c x) \<and> (\<forall>x\<in>set post. c m \<le> c x))"
proof (induction ms arbitrary: v bm)
  case Nil
  show ?case by simp
next
  case (Cons m0 ms)
  show ?case
  proof (cases "c m0 < v")
    case True
    have step: "minimax_min val L board (m0 # ms) v bm = minimax_min val L board ms (c m0) (Some m0)"
      using True by (simp add: c_def)
    from Cons.IH [of "c m0" "Some m0"] show ?thesis
    proof (elim disjE exE conjE)
      assume "minimax_min val L board ms (c m0) (Some m0) = (Some m0, c m0)" "\<forall>x\<in>set ms. c m0 \<le> c x"
      then have "m0 # ms = [] @ m0 # ms \<and> minimax_min val L board (m0 # ms) v bm = (Some m0, c m0)
           \<and> c m0 < v \<and> (\<forall>x\<in>set []. c m0 < c x) \<and> (\<forall>x\<in>set ms. c m0 \<le> c x)"
        using True step by simp
      then show ?thesis by blast
    next
      fix pre m post
      assume "ms = pre @ m # post" "minimax_min val L board ms (c m0) (Some m0) = (Some m, c m)"
        "c m < c m0" "\<forall>x\<in>set pre. c m < c x" "\<forall>x\<in>set post. c m \<le> c x"
      then have "m0 # ms = (m0 # pre) @ m # post \<and> minimax_min val L board (m0 # ms) v bm = (Some m, c m)
           \<and> c m < v \<and> (\<forall>x\<in>set (m0 # pre). c m < c x) \<and> (\<forall>x\<in>set post. c m \<le> c x)"
        using True step by auto
      then show ?thesis by blast
    qed
  next
    case False
    have step: "minimax_min val L board (m0 # ms) v bm = minimax_min val L board ms v bm"
      using False by (simp add: c_def)
    from Cons.IH [of v bm] show ?thesis
    proof (elim disjE exE conjE)
      assume "minimax_min val L board ms v bm = (bm, v)" "\<forall>x\<in>set ms. v \<le> c x"
      then show ?thesis
        using False step by auto
    next
      fix pre m post
      assume "ms = pre @ m # post" "minimax_min val L board ms v bm = (Some m, c m)"
        "c m < v" "\<forall>x\<in>set pre. c m < c x" "\<forall>x\<in>set post. c m \<le> c x"
      then have "m0 # ms = (m0 # pre) @ m # post \<and> minimax_min val L board (m0 # ms) v bm = (Some m, c m)
           \<and> c m < v \<and> (\<forall>x\<in>set (m0 # pre). c m < c x) \<and> (\<forall>x\<in>set post. c m \<le> c x)"
        using False step by auto
      then show ?thesis by blast
    qed
  qed
qed

lemma leaf_searcher_ok:
  "searcher_ok (\<lambda>b. Fin (fst (evaluate L self b 0)))
     (\<lambda>board alpha beta t. alpha_beta_search L self clk board 0 alpha beta player start_time time_limit t)"
  by (simp add: searcher_ok_def case_evaluate window_sound_def)


text \<open>
  C9, as the code has it.  The search of depth 1 with the full window returns no move
  when the game is over or the clock reading at the entry of the root is past the
  deadline (it returns the static evaluation of the root).  Otherwise, on a position
  with a legal move, it returns the first legal move, in enumeration order, whose child
  evaluation is the greatest when the side to move is \<open>player\<close> and the least
  otherwise, with that evaluation as score; the children are leaves and read no clock.
\<close>

theorem depth_one_search_picks_best_child:
  fixes L self board
  defines "child \<equiv> \<lambda>m. fst (evaluate L self (push L board m) 0)"
  shows "(is_game_over L board \<or> clk t - start_time > time_limit \<longrightarrow>
            (\<exists>t'. alpha_beta_search L self clk board (Suc 0) NegInf PosInf player start_time time_limit t
               = Some ((None, Fin (fst (evaluate L self board 0))), board, t')))
       \<and> (\<not> is_game_over L board \<and> \<not> clk t - start_time > time_limit \<and> legal_moves L board \<noteq> [] \<longrightarrow>
            (\<exists>pre m post t'. legal_moves L board = pre @ m # post
               \<and> alpha_beta_search L self clk board (Suc 0) NegInf PosInf player start_time time_limit t
                    = Some ((Some m, Fin (child m)), board, t')
               \<and> (if turn board = player
                   then (\<forall>x\<in>set pre. child x < child m) \<and> (\<forall>x\<in>set post. child x \<le> child m)
                   else (\<forall>x\<in>set pre. child m < child x) \<and> (\<forall>x\<in>set post. child m \<le> child x))))"
proof (intro conjI impI)
  assume "is_game_over L board \<or> clk t - start_time > time_limit"
  then show "\<exists>t'. alpha_beta_search L self clk board (Suc 0) NegInf PosInf player start_time time_limit t
               = Some ((None, Fin (fst (evaluate L self board 0))), board, t')"
    by (auto simp: case_evaluate)
next
  assume a: "\<not> is_game_over L board \<and> \<not> clk t - start_time > time_limit \<and> legal_moves L board \<noteq> []"
  let ?val = "\<lambda>b. Fin (fst (evaluate L self b 0))"
  let ?ms = "legal_moves L board"
  note ok = leaf_searcher_ok [of L self clk player start_time time_limit]
  show "\<exists>pre m post t'. legal_moves L board = pre @ m # post
               \<and> alpha_beta_search L self clk board (Suc 0) NegInf PosInf player start_time time_limit t
                    = Some ((Some m, Fin (child m)), board, t')
               \<and> (if turn board = player
                   then (\<forall>x\<in>set pre. child x < child m) \<and> (\<forall>x\<in>set post. child x \<le> child m)
                   else (\<forall>x\<in>set pre. child m < child x) \<and> (\<forall>x\<in>set post. child m \<le> child x))"
  proof (cases "turn board = player")
    case True
    obtain t' where r: "alpha_beta_search L self clk board (Suc 0) NegInf PosInf player start_time time_limit t
        = Some (minimax_max ?val L board ?ms NegInf None, board, t')"
    proof -
      have "alpha_beta_search L self clk board (Suc 0) NegInf PosInf player start_time time_limit t
          = max_loop L (\<lambda>board alpha beta t.
               alpha_beta_search L self clk board 0 alpha beta player start_time time_limit t)
             board NegInf PosInf ?ms NegInf None (Suc t)"
        using a True by (simp del: max_loop.simps alpha_beta_search.simps(1))
      then show ?thesis
        using max_loop_root [OF ok, of NegInf L board ?ms None "Suc t"] that by auto
    qed
    have "\<not> (\<forall>x\<in>set ?ms. ?val (push L board x) \<le> NegInf)"
      using a by (cases ?ms) auto
    with minimax_max_first_best [of ?val L board ?ms NegInf None]
    obtain pre m post where "?ms = pre @ m # post"
      "minimax_max ?val L board ?ms NegInf None = (Some m, ?val (push L board m))"
      "(\<forall>x\<in>set pre. ?val (push L board x) < ?val (push L board m))"
      "(\<forall>x\<in>set post. ?val (push L board x) \<le> ?val (push L board m))"
      by blast
    then show ?thesis
      unfolding child_def r using True by (auto simp del: minimax_max.simps)
  next
    case False
    obtain t' where r: "alpha_beta_search L self clk board (Suc 0) NegInf PosInf player start_time time_limit t
        = Some (minimax_min ?val L board ?ms PosInf None, board, t')"
    proof -
      have "alpha_beta_search L self clk board (Suc 0) NegInf PosInf player start_time time_limit t
          = min_loop L (\<lambda>board alpha beta t.
               alpha_beta_search L self clk board 0 alpha beta player start_time time_limit t)
             board NegInf PosInf ?ms PosInf None (Suc t)"
        using a False by (simp del: min_loop.simps alpha_beta_search.simps(1))
      then show ?thesis
        using min_loop_root [OF ok, of PosInf L board ?ms None "Suc t"] that by auto
    qed
    have "\<not> (\<forall>x\<in>set ?ms. PosInf \<le> ?val (push L board x))"
      using a by (cases ?ms) auto
    with minimax_min_first_best [of ?val L board ?ms PosInf None]
    obtain pre m post where "?ms = pre @ m # post"
      "minimax_min ?val L board ?ms PosInf None = (Some m, ?val (push L board m))"
      "(\<forall>x\<in>set pre. ?val (push L board m) < ?val (push L board x))"
      "(\<forall>x\<in>set post. ?val (push L board m) \<le> ?val (push L board x))"
      by blast
    then show ?thesis
      unfolding child_def r using False by (auto simp del: minimax_min.simps)
  qed
qed

text \<open>
  C9 as stated fails: with a deadline already past at the entry of the root, the search
  of depth 1 on a position with two legal moves returns no move.
\<close>

theorem depth_one_search_counterexample:
  "legal_moves toy toy_root = [move_a, move_b]
   \<and> alpha_beta_search toy toy_agent (\<lambda>n. 11) toy_root (Suc 0) NegInf PosInf WHITE 0 10 0
       = Some ((None, Fin (- 2)), toy_root, 1)"
  by (simp add: toy_simps)

theorem depth_one_search_picks_best_child_witness:
  "\<not> is_game_over toy toy_root \<and> \<not> (\<lambda>n. 0::real) 0 - 0 > 10 \<and> legal_moves toy toy_root \<noteq> []
   \<and> (\<exists>pre m post t'. legal_moves toy toy_root = pre @ m # post
         \<and> alpha_beta_search toy toy_agent (\<lambda>n. 0) toy_root (Suc 0) NegInf PosInf WHITE 0 10 0
              = Some ((Some m, Fin (fst (evaluate toy toy_agent (push toy toy_root m) 0))), toy_root, t')
         \<and> (if turn toy_root = WHITE
             then (\<forall>x\<in>set pre. fst (evaluate toy toy_agent (push toy toy_root x) 0)
                       < fst (evaluate toy toy_agent (push toy toy_root m) 0))
                \<and> (\<forall>x\<in>set post. fst (evaluate toy toy_agent (push toy toy_root x) 0)
                       \<le> fst (evaluate toy toy_agent (push toy toy_root m) 0))
             else (\<forall>x\<in>set pre. fst (evaluate toy toy_agent (push toy toy_root m) 0)
                       < fst (evaluate toy toy_agent (push toy toy_root x) 0))
                \<and> (\<forall>x\<in>set post. fst (evaluate toy toy_agent (push toy toy_root m) 0)
                       \<le> fst (evaluate toy toy_agent (push toy toy_root x) 0))))"
proof -
  have pre: "\<not> is_game_over toy toy_root \<and> \<not> (\<lambda>n. 0::real) 0 - 0 > 10 \<and> legal_moves toy toy_root \<noteq> []"
    by (simp add: toy_def toy_root_def)
  show ?thesis
    using depth_one_search_picks_best_child [where L = toy and board = toy_root and clk = "\<lambda>n. 0"
        and t = 0 and start_time = 0 and time_limit = 10 and self = toy_agent and player = WHITE] pre
    by blast
qed

section \<open>C8: the fallback scan\<close>

lemma fallback_loop_eq:
  "fallback_loop L self board ms best fm
     = Some (fst (minimax_max (\<lambda>b. Fin (fst (evaluate L self b 0))) L board ms best fm), board)"
  by (induction ms arbitrary: best fm) (simp_all add: case_evaluate pop_push Let_def)

lemma deepening_loop_board:
  assumes "deepening_loop L self clk start_time time_limit board depth best_move t = Some r"
  shows "fst (snd r) = board"
proof (rule deepening_loop.raw_induct
    [where P = "\<lambda>L self clk start_time time_limit board depth best_move t r. fst (snd r) = board",
      OF _ assms])
  fix loop :: "'a chess \<Rightarrow> agent \<Rightarrow> (nat \<Rightarrow> real) \<Rightarrow> real \<Rightarrow> real \<Rightarrow> 'a board \<Rightarrow> nat \<Rightarrow> move option \<Rightarrow> nat
       \<Rightarrow> (move option \<times> 'a board \<times> nat) option"
  fix L self clk start_time time_limit board depth best_move t r
  assume IH: "\<And>L self clk start_time time_limit board depth best_move t r.
      loop L self clk start_time time_limit board depth best_move t = Some r \<Longrightarrow> fst (snd r) = board"
  assume step: "(if clk t - start_time < time_limit
      then case alpha_beta_search L self clk board depth NegInf PosInf (color self) start_time time_limit (Suc t) of
           None \<Rightarrow> None
           | Some ((move, x), board, t) \<Rightarrow>
               loop L self clk start_time time_limit board (depth + 1)
                (if move \<noteq> None then move else best_move) t
      else Some (best_move, board, Suc t)) = Some r"
  obtain mv s t1 where s: "alpha_beta_search L self clk board depth NegInf PosInf (color self)
      start_time time_limit (Suc t) = Some ((mv, s), board, t1)"
    using alpha_beta_search_frame [of L self clk board depth NegInf PosInf "color self" start_time
        time_limit "Suc t"] by auto
  show "fst (snd r) = board"
  proof (cases "clk t - start_time < time_limit")
    case True
    then have "loop L self clk start_time time_limit board (depth + 1)
        (if mv \<noteq> None then mv else best_move) t1 = Some r"
      using step by (simp add: s)
    then show ?thesis by (rule IH)
  next
    case False
    then show ?thesis using step by auto
  qed
qed

text \<open>
  C8, as the code has it.  When no scripted move is played and the deepening loop ends
  without a move, \<open>select_move\<close> leaves the board as it was and: on a position with a
  legal move it returns the first legal move, in enumeration order, whose resulting
  position has the greatest evaluation (every earlier move evaluates strictly lower,
  every later one at most as high); on a position without legal moves it returns
  \<open>None\<close>.
\<close>

theorem fallback_scan:
  fixes L self board
  defines "child \<equiv> \<lambda>m. fst (evaluate L self (push L board m) 0)"
  assumes scripted: "scripted_move L self board = None"
    and loop: "deepening_loop L self clk (clk t) time_limit board 1 None (Suc t) = Some (None, board', t')"
  shows "board' = board
     \<and> (legal_moves L board = [] \<longrightarrow>
           select_move L self clk board time_limit t = Some (None, self, board, t'))
     \<and> (legal_moves L board \<noteq> [] \<longrightarrow>
           (\<exists>pre m post. legal_moves L board = pre @ m # post
              \<and> select_move L self clk board time_limit t = Some (Some m, self, board, t')
              \<and> (\<forall>x\<in>set pre. child x < child m) \<and> (\<forall>x\<in>set post. child x \<le> child m)))"
proof -
  let ?val = "\<lambda>b. Fin (fst (evaluate L self b 0))"
  let ?ms = "legal_moves L board"
  have b: "board' = board"
    using deepening_loop_board [OF loop] by simp
  have sel: "select_move L self clk board time_limit t
      = Some (fst (minimax_max ?val L board ?ms NegInf None), self, board, t')"
    using loop unfolding b
    by (simp add: select_move_def search_move_def scripted fallback_loop_eq)
  have empty: "?ms = [] \<longrightarrow> select_move L self clk board time_limit t = Some (None, self, board, t')"
    unfolding sel by simp
  have nonempty: "\<exists>pre m post. ?ms = pre @ m # post
      \<and> select_move L self clk board time_limit t = Some (Some m, self, board, t')
      \<and> (\<forall>x\<in>set pre. child x < child m) \<and> (\<forall>x\<in>set post. child x \<le> child m)"
    if ne: "?ms \<noteq> []"
  proof -
    have "\<not> (\<forall>x\<in>set ?ms. ?val (push L board x) \<le> NegInf)"
      using ne by (cases ?ms) auto
    with minimax_max_first_best [of ?val L board ?ms NegInf None]
    obtain pre m post where "?ms = pre @ m # post"
      "minimax_max ?val L board ?ms NegInf None = (Some m, ?val (push L board m))"
      "(\<forall>x\<in>set pre. ?val (push L board x) < ?val (push L board m))"
      "(\<forall>x\<in>set post. ?val (push L board x) \<le> ?val (push L board m))"
      by blast
    then show ?thesis
      unfolding child_def sel by (auto simp del: minimax_max.simps)
  qed
  show ?thesis
    using b empty nonempty by blast
qed

text \<open>
  C8 as stated fails on a position without legal moves: the search finds no move, the
  scan has nothing to scan, and \<open>select_move\<close> returns \<open>None\<close> to its caller.
\<close>

theorem fallback_scan_counterexample:
  "scripted_move toy toy_agent toy_over = None
   \<and> deepening_loop toy toy_agent (\<lambda>n. if n < 2 then 0 else 11) 0 10 toy_over 1 None 1
       = Some (None, toy_over, 3)
   \<and> select_move toy toy_agent (\<lambda>n. if n < 2 then 0 else 11) toy_over 10 0
       = Some (None, toy_agent, toy_over, 3)"
  by (simp add: select_move_def search_move_def scripted_move_def deepening_loop.simps toy_over_def
      toy_simps)

theorem fallback_scan_witness:
  "scripted_move toy toy_agent toy_root = None
   \<and> deepening_loop toy toy_agent (\<lambda>n. if n < 1 then 0 else 11) ((\<lambda>n::nat. if n < 1 then 0 else 11) 0)
         10 toy_root 1 None (Suc 0) = Some (None, toy_root, 2)
   \<and> legal_moves toy toy_root = [] @ move_a # [move_b]
   \<and> select_move toy toy_agent (\<lambda>n. if n < 1 then 0 else 11) toy_root 10 0
        = Some (Some move_a, toy_agent, toy_root, 2)"
proof -
  have scripted: "scripted_move toy toy_agent toy_root = None"
    by (simp add: scripted_move_def toy_simps)
  have loop: "deepening_loop toy toy_agent (\<lambda>n. if n < 1 then 0 else 11)
      ((\<lambda>n::nat. if n < 1 then 0 else 11) 0) 10 toy_root 1 None (Suc 0) = Some (None, toy_root, 2)"
    by (simp add: deepening_loop.simps)
  have moves: "legal_moves toy toy_root = [move_a, move_b]"
    by (simp add: toy_simps)
  have lt: "fst (evaluate toy toy_agent (push toy toy_root move_b) 0)
      \<le> fst (evaluate toy toy_agent (push toy toy_root move_a) 0)"
    by (simp add: toy_simps)
  from fallback_scan [OF scripted loop] moves
  obtain pre m post where pm: "[move_a, move_b] = pre @ m # post"
    and sel: "select_move toy toy_agent (\<lambda>n. if n < 1 then 0 else 11) toy_root 10 0
        = Some (Some m, toy_agent, toy_root, 2)"
    and first: "\<forall>x\<in>set pre. fst (evaluate toy toy_agent (push toy toy_root x) 0)
        < fst (evaluate toy toy_agent (push toy toy_root m) 0)"
    by auto
  have "m = move_a"
  proof (cases pre)
    case Nil
    then show ?thesis using pm by simp
  next
    case (Cons p ps)
    then have "p = move_a" "m = move_b"
      using pm by (cases ps; simp)+
    then show ?thesis using first lt Cons by auto
  qed
  then show ?thesis
    using scripted loop moves sel by simp
qed

section \<open>C5: what the deepening loop keeps\<close>

text \<open>
  C5, as the code has it.  On a library in which a position that is not game over has a
  legal move, one pass of the loop at a depth of at least 1: when the loop condition
  holds, the attempt returns, its move is \<open>None\<close> exactly when the game is over or the
  reading at the entry of the root is past the deadline, a \<open>None\<close> move leaves the
  running best move as it is, and any other move replaces it (nothing asks whether the
  deadline fired further down in that attempt); when the loop condition fails, the
  loop returns the running best move.
\<close>

theorem deepening_iteration:
  assumes contract: "\<forall>b. \<not> is_game_over L b \<longrightarrow> legal_moves L b \<noteq> []"
    and depth: "0 < depth"
  shows "(clk t - start_time < time_limit \<longrightarrow>
           (\<exists>mv s t'. alpha_beta_search L self clk board depth NegInf PosInf (color self)
                          start_time time_limit (Suc t) = Some ((mv, s), board, t')
              \<and> (mv = None \<longleftrightarrow> is_game_over L board \<or> clk (Suc t) - start_time > time_limit)
              \<and> deepening_loop L self clk start_time time_limit board depth best_move t
                  = deepening_loop L self clk start_time time_limit board (depth + 1)
                      (if mv = None then best_move else mv) t'))
       \<and> (\<not> clk t - start_time < time_limit \<longrightarrow>
           deepening_loop L self clk start_time time_limit board depth best_move t
             = Some (best_move, board, Suc t))"
proof (intro conjI impI)
  assume run: "clk t - start_time < time_limit"
  obtain mv s t' where s: "alpha_beta_search L self clk board depth NegInf PosInf (color self)
        start_time time_limit (Suc t) = Some ((mv, s), board, t')"
    and n: "mv = None \<longleftrightarrow> depth = 0 \<or> is_game_over L board \<or> clk (Suc t) - start_time > time_limit"
    using alpha_beta_search_move_none_iff [OF contract, of self clk board depth NegInf PosInf
        "color self" start_time time_limit "Suc t"] by blast
  have "deepening_loop L self clk start_time time_limit board depth best_move t
      = deepening_loop L self clk start_time time_limit board (depth + 1)
          (if mv = None then best_move else mv) t'"
    by (subst deepening_loop.simps) (simp add: run s)
  then show "\<exists>mv s t'. alpha_beta_search L self clk board depth NegInf PosInf (color self)
                          start_time time_limit (Suc t) = Some ((mv, s), board, t')
              \<and> (mv = None \<longleftrightarrow> is_game_over L board \<or> clk (Suc t) - start_time > time_limit)
              \<and> deepening_loop L self clk start_time time_limit board depth best_move t
                  = deepening_loop L self clk start_time time_limit board (depth + 1)
                      (if mv = None then best_move else mv) t'"
    using s n depth by auto
next
  assume "\<not> clk t - start_time < time_limit"
  then show "deepening_loop L self clk start_time time_limit board depth best_move t
             = Some (best_move, board, Suc t)"
    by (subst deepening_loop.simps) simp
qed

text \<open>
  C5 as stated fails.  On the small game with the clock \<open>toy_clock\<close> and a budget of
  10, the attempt of depth 1 completes (no reading is past the deadline) and finds
  \<open>move_a\<close>, as the full minimax of depth 1 does.  The attempt of depth 2 enters the
  root and the first child in time, completes the first child, and finds the deadline
  passed at the entry of the second child, which it scores statically; it returns
  \<open>move_b\<close>, where the full minimax of depth 2 has \<open>move_a\<close>.  The loop overwrites
  its best move with \<open>move_b\<close> and \<open>select_move\<close> returns it: not the best move of
  the last attempt that completed.
\<close>

theorem deepening_keeps_cut_result_counterexample:
  "alpha_beta_search toy toy_agent toy_clock toy_root (Suc 0) NegInf PosInf WHITE 0 10 2
      = Some ((Some move_a, Fin (- 2)), toy_root, 3)
   \<and> minimax toy toy_agent toy_root (Suc 0) WHITE = (Some move_a, Fin (- 2))
   \<and> alpha_beta_search toy toy_agent toy_clock toy_root (Suc (Suc 0)) NegInf PosInf WHITE 0 10 4
      = Some ((Some move_b, Fin (- 2)), toy_root, 7)
   \<and> minimax toy toy_agent toy_root (Suc (Suc 0)) WHITE = (Some move_a, Fin (- 10000))
   \<and> \<not> toy_clock 2 - 0 > 10 \<and> \<not> toy_clock 4 - 0 > 10 \<and> \<not> toy_clock 5 - 0 > 10
   \<and> toy_clock 6 - 0 > 10
   \<and> select_move toy toy_agent toy_clock toy_root 10 0 = Some (Some move_b, toy_agent, toy_root, 8)
   \<and> move_a \<noteq> move_b"
  by (simp add: select_move_def search_move_def scripted_move_def deepening_loop.simps toy_clock_def
      toy_simps)

theorem deepening_iteration_witness:
  "(\<forall>b. is_game_over toy b \<or> legal_moves toy b \<noteq> []) \<and> (0::nat) < 1 \<and> toy_clock 1 - 0 < 10
   \<and> (\<exists>mv s t'. alpha_beta_search toy toy_agent toy_clock toy_root 1 NegInf PosInf (color toy_agent)
                     0 10 (Suc 1) = Some ((mv, s), toy_root, t')
          \<and> (mv = None) = (is_game_over toy toy_root \<or> toy_clock (Suc 1) - 0 > 10)
          \<and> deepening_loop toy toy_agent toy_clock 0 10 toy_root 1 None 1
              = deepening_loop toy toy_agent toy_clock 0 10 toy_root (1 + 1)
                  (if mv = None then None else mv) t')"
proof -
  have contract: "\<forall>b. \<not> is_game_over toy b \<longrightarrow> legal_moves toy b \<noteq> []"
    by (simp add: toy_def)
  have depth: "(0::nat) < 1"
    by simp
  have run: "toy_clock 1 - 0 < 10"
    by (simp add: toy_clock_def)
  show ?thesis
    using deepening_iteration [OF contract depth, of toy_clock 1 0 10 toy_agent toy_root None]
      contract run
    by blast
qed

section \<open>C2: the order of the scripted sources\<close>

lemma search_move_agent:
  "search_move L self clk board time_limit t = Some (mv, self', board', t') \<Longrightarrow> self' = self"
  by (auto simp: search_move_def Let_def split: option.splits if_splits)


text \<open>
  C2, as the code has it.  The history branch is the \<^verbatim>\<open>elif\<close> of the test
  ``White with an opening list''.  So: when the agent is White with a non-empty opening
  list and that source supplies no move (list used up, entry not parsed, move not
  legal), \<open>select_move\<close> is the search part, and the agent's counters are as before;
  when the agent is not White or has no opening list, and the history list is not used
  up, the next history entry is parsed: a legal move is returned with the history
  counter advanced, before any clock reading or search, and otherwise \<open>select_move\<close>
  is the search part.  No branch raises.
\<close>

theorem scripted_sources_order:
  fixes L self board
  defines "opening_supplies \<equiv>
      opening_moves_played self < length (test_opening_moves self)
      \<and> (\<exists>m. parse_san L board (test_opening_moves self ! opening_moves_played self) = Some m
             \<and> m \<in> set (legal_moves L board))"
  shows "(color self = WHITE \<and> test_opening_moves self \<noteq> [] \<and> \<not> opening_supplies \<longrightarrow>
            select_move L self clk board time_limit t = search_move L self clk board time_limit t
            \<and> (\<forall>mv self' board' t'. select_move L self clk board time_limit t = Some (mv, self', board', t')
                   \<longrightarrow> self' = self))
       \<and> (\<not> (color self = WHITE \<and> test_opening_moves self \<noteq> [])
            \<and> magnus_moves_played self < length (magnus_moves self) \<longrightarrow>
            (case parse_san L board (magnus_moves self ! magnus_moves_played self) of
               None \<Rightarrow> select_move L self clk board time_limit t = search_move L self clk board time_limit t
             | Some m \<Rightarrow>
                 if m \<in> set (legal_moves L board)
                 then select_move L self clk board time_limit t
                        = Some (Some m, self\<lparr>magnus_moves_played := magnus_moves_played self + 1\<rparr>, board, t)
                 else select_move L self clk board time_limit t = search_move L self clk board time_limit t))"
proof (intro conjI impI)
  assume a: "color self = WHITE \<and> test_opening_moves self \<noteq> [] \<and> \<not> opening_supplies"
  then have "scripted_move L self board = None"
    unfolding opening_supplies_def scripted_move_def by (auto simp: Let_def split: option.splits)
  then show eq: "select_move L self clk board time_limit t = search_move L self clk board time_limit t"
    by (simp add: select_move_def)
  show "\<forall>mv self' board' t'. select_move L self clk board time_limit t = Some (mv, self', board', t')
                   \<longrightarrow> self' = self"
    unfolding eq using search_move_agent by blast
next
  assume a: "\<not> (color self = WHITE \<and> test_opening_moves self \<noteq> [])
            \<and> magnus_moves_played self < length (magnus_moves self)"
  then show "case parse_san L board (magnus_moves self ! magnus_moves_played self) of
               None \<Rightarrow> select_move L self clk board time_limit t = search_move L self clk board time_limit t
             | Some m \<Rightarrow>
                 if m \<in> set (legal_moves L board)
                 then select_move L self clk board time_limit t
                        = Some (Some m, self\<lparr>magnus_moves_played := magnus_moves_played self + 1\<rparr>, board, t)
                 else select_move L self clk board time_limit t = search_move L self clk board time_limit t"
    by (auto simp: select_move_def scripted_move_def Let_def split: option.splits)
qed

text \<open>
  C2 as stated fails.  White's opening list is exhausted, the history list is not, and
  its next entry parses to a legal move; \<open>select_move\<close> does not try it: it runs the
  search, returns the search's move and leaves the history counter at 0.
\<close>

theorem scripted_sources_order_counterexample:
  "color toy_book_agent = WHITE
   \<and> \<not> opening_moves_played toy_book_agent < length (test_opening_moves toy_book_agent)
   \<and> magnus_moves_played toy_book_agent < length (magnus_moves toy_book_agent)
   \<and> parse_san toy toy_root (magnus_moves toy_book_agent ! magnus_moves_played toy_book_agent)
        = Some move_b
   \<and> move_b \<in> set (legal_moves toy toy_root)
   \<and> select_move toy toy_book_agent real toy_root 3 0
        = Some (Some move_a, toy_book_agent, toy_root, 4)
   \<and> move_a \<noteq> move_b
   \<and> magnus_moves_played toy_book_agent = 0"
  by (simp add: select_move_def search_move_def scripted_move_def deepening_loop.simps
      toy_book_agent_def toy_def toy_root_def push_def pop_def move_a_def move_b_def
      evaluate_checkmate evaluate_draw evaluate_empty_quiet)

theorem scripted_sources_order_witness:
  "color toy_book_agent = WHITE \<and> test_opening_moves toy_book_agent \<noteq> []
   \<and> \<not> opening_moves_played toy_book_agent < length (test_opening_moves toy_book_agent)
   \<and> select_move toy toy_book_agent real toy_root 3 0 = search_move toy toy_book_agent real toy_root 3 0
   \<and> color toy_history_agent \<noteq> WHITE
   \<and> magnus_moves_played toy_history_agent < length (magnus_moves toy_history_agent)
   \<and> select_move toy toy_history_agent real toy_root 3 0
        = Some (Some move_b, toy_history_agent\<lparr>magnus_moves_played := 1\<rparr>, toy_root, 0)"
proof -
  have book: "color toy_book_agent = WHITE \<and> test_opening_moves toy_book_agent \<noteq> []
      \<and> \<not> opening_moves_played toy_book_agent < length (test_opening_moves toy_book_agent)"
    by (simp add: toy_book_agent_def)
  have hist: "color toy_history_agent \<noteq> WHITE
      \<and> magnus_moves_played toy_history_agent < length (magnus_moves toy_history_agent)"
    by (simp add: toy_history_agent_def)
  have parse: "parse_san toy toy_root (magnus_moves toy_history_agent ! magnus_moves_played toy_history_agent)
      = Some move_b" "move_b \<in> set (legal_moves toy toy_root)"
      "magnus_moves_played toy_history_agent + 1 = 1"
    by (simp_all add: toy_history_agent_def toy_def toy_root_def)
  show ?thesis
    using scripted_sources_order [of toy_book_agent toy toy_root real 3 0]
      scripted_sources_order [of toy_history_agent toy toy_root real 3 0] book hist parse
    by simp
qed

section \<open>The evaluator on the pawn ending\<close>

lemma endgame_piece_at:
  "piece_at endgame_position = (\<lambda>sq. if sq = 4 then Some (Piece KING WHITE)
      else if sq = 8 then Some (Piece PAWN WHITE) else if sq = 28 then Some (Piece PAWN BLACK)
      else if sq = 60 then Some (Piece KING BLACK) else None)"
  by (auto simp: endgame_position_def push_def endgame_def endgame_start_def pawn_takes_def
      move_piece_def endgame_placement_def)

lemma endgame_fields:
  "turn endgame_position = WHITE" "move_stack endgame_position = [pawn_takes]"
  by (simp_all add: endgame_position_def push_def endgame_def endgame_start_def)

lemma endgame_pieces:
  "pieces endgame_position KING WHITE = [4]" "pieces endgame_position KING BLACK = [60]"
  "pieces endgame_position PAWN WHITE = [8]" "pieces endgame_position PAWN BLACK = [28]"
  "pieces endgame_position KNIGHT c = []" "pieces endgame_position BISHOP c = []"
  "pieces endgame_position ROOK c = []" "pieces endgame_position QUEEN c = []"
  by (simp_all add: pieces_def SQUARES_def upt_rec endgame_piece_at)

lemma endgame_piece_map:
  "piece_map endgame_position
     = [(60, Piece KING BLACK), (28, Piece PAWN BLACK), (8, Piece PAWN WHITE), (4, Piece KING WHITE)]"
  by (simp add: piece_map_def SQUARES_def upt_rec endgame_piece_at List.map_filter_def)

lemma endgame_oracle:
  "legal_moves endgame (endgame_position\<lparr>turn := WHITE\<rparr>)
     = [Move 4 3 None, Move 4 5 None, Move 4 11 None, Move 4 12 None, Move 4 13 None,
        Move 8 16 None, Move 8 24 None]"
  "legal_moves endgame (endgame_position\<lparr>turn := BLACK\<rparr>)
     = [Move 60 59 None, Move 60 61 None, Move 60 51 None, Move 60 52 None,
        Move 60 53 None, Move 28 20 None]"
  "legal_moves endgame endgame_position
     = [Move 4 3 None, Move 4 5 None, Move 4 11 None, Move 4 12 None, Move 4 13 None,
        Move 8 16 None, Move 8 24 None]"
  "is_checkmate endgame b = False" "is_stalemate endgame b = False"
  "is_insufficient_material endgame b = False" "is_check endgame b = False"
  "is_capture endgame b m = True"
  "attackers endgame b c sq = (if c then (if sq \<in> {3, 5, 11, 12, 13} then [4]
                                        else if sq = 17 then [8] else [])
                            else (if sq \<in> {51, 52, 53, 59, 61} then [60]
                                  else if sq \<in> {19, 21} then [28] else []))"
  "is_attacked_by endgame b c sq = (if c then sq \<in> {3, 5, 11, 12, 13, 17}
                                 else sq \<in> {51, 52, 53, 59, 61, 19, 21})"
  by (simp_all add: endgame_def endgame_fields)

lemma endgame_material: "material_count endgame_position c 0 = 0"
  by (cases c) (simp_all add: material_count_def piece_types_def endgame_pieces piece_values_def)

lemma endgame_mate_term: "forced_mate_heuristic endgame endgame_position WHITE score = score + 600"
  by (simp add: forced_mate_heuristic_def endgame_pieces king_def endgame_oracle endgame_fields
      square_file_def square_rank_def Let_def)

lemma endgame_passed_white: "reward_passed_pawns endgame_position WHITE score = score + 5 / 2"
  by (simp add: reward_passed_pawns_def endgame_pieces is_passed_pawn_def open_road_def
      square_file_def square_rank_def square_def Let_def enemy_pawn_at_def endgame_piece_at upt_rec)

lemma endgame_passed_black: "penalize_passed_pawns endgame_position WHITE score = score - 2"
  by (simp add: penalize_passed_pawns_def endgame_pieces is_passed_pawn_def open_road_def
      square_file_def square_rank_def square_def Let_def enemy_pawn_at_def endgame_piece_at upt_rec)

lemma endgame_threats: "counter_threat_bonus endgame endgame_position WHITE = 0"
  by (simp add: counter_threat_bonus_def endgame_piece_map endgame_oracle)

lemma endgame_safety: "piece_safety endgame endgame_position WHITE score = score"
  by (simp add: piece_safety_def endgame_pieces endgame_oracle Let_def)

lemma endgame_capture_opportunities:
  "capture_opportunities endgame endgame_position WHITE score = score"
  by (simp add: capture_opportunities_def piece_types_def endgame_pieces endgame_oracle)

lemma endgame_central: "central_control endgame endgame_position WHITE score = score"
  by (simp add: central_control_def central_squares_def endgame_oracle Let_def)

lemma endgame_coordination: "coordination_bonus endgame endgame_position WHITE = 0"
  by (simp add: coordination_bonus_def endgame_piece_map endgame_oracle Let_def)

lemma endgame_capture_penalty:
  "discourage_non_positive_captures endgame endgame_position WHITE score = score"
  "discourage_non_positive_captures endgame endgame_position BLACK score = score - 1"
  by (simp_all add: discourage_non_positive_captures_def endgame_fields endgame_oracle
      endgame_material Let_def)

lemma endgame_evaluate: "fst (evaluate endgame toy_agent endgame_position 0) = 598.55"
  by (simp add: evaluate_def mobility_eq toy_agent_def endgame_oracle endgame_material
      endgame_passed_white endgame_passed_black endgame_threats endgame_safety
      endgame_capture_opportunities endgame_central endgame_coordination endgame_capture_penalty
      positional_improvement_check_def dominant_position_capture_penalty_def endgame_mate_term
      Let_def)

section \<open>C7: passed pawns\<close>




















section \<open>C4: the capture penalty\<close>






section \<open>C3: the forced-mate heuristic\<close>

text \<open>
  C3 on the code.  On the pawn ending Black, the opponent of the perspective White, owns
  a king and a pawn; the king-confinement section still adds 600 (500 for no king move
  among White's legal moves, 100 for the king on the back rank), and \<open>evaluate\<close>
  returns 598.55.  The guard of the section only asks for exactly one opposing king.
\<close>

theorem forced_mate_heuristic_on_king_and_pawn:
  "pieces endgame_position KING BLACK = [60] \<and> pieces endgame_position PAWN BLACK = [28]
   \<and> forced_mate_heuristic endgame endgame_position WHITE 0 = 600
   \<and> fst (evaluate endgame toy_agent endgame_position 0) = 598.55"
  by (simp add: endgame_pieces endgame_mate_term endgame_evaluate)


end
